theory Spec2Isabelle
  imports Complex_Main "HOL-Library.Word" "HOL-Library.Multiset" "HOL-Library.Log_Nat"
begin

unbundle bit_operations_syntax

section \<open>Memory\<close>

text \<open>
  Pointers are addresses, \<open>0\<close> is the null pointer. The heap is split by what a cell
  holds: NUL-terminated strings (the keys duplicated by \<open>strdup\<close>) and data blocks (what
  \<open>void *data\<close> points to). The allocator hands out the address after \<open>brk\<close>, which is
  never null and never an address handed out before. \<open>malloc\<close> and \<open>strdup\<close> never
  fail here, so the \<open>assert\<close>s on their results always pass. \<open>free\<close> of a pointer that
  is neither null nor allocated (never allocated, or freed before) is undefined: \<open>None\<close>.
  The slot array of a table is owned by the table alone and is kept in the table
  (\<open>None\<close> is the null pointer \<open>item\<close>), not in the heap. \<open>calloc\<close> returns no array of
  more than \<open>max_slots\<close> slots: a slot takes 24 bytes and no process addresses more than
  \<open>2 ^ 56\<close> bytes.
\<close>

type_synonym addr = nat
type_synonym byte = "8 word"

record mem =
  strs :: "addr \<Rightarrow> string option"
  blks :: "addr \<Rightarrow> byte list option"
  brk :: addr

definition strdup :: "string \<Rightarrow> mem \<Rightarrow> addr \<times> mem" where
  "strdup s m = (let a = Suc (brk m) in (a, m\<lparr>strs := (strs m)(a \<mapsto> s), brk := a\<rparr>))"

definition malloc :: "nat \<Rightarrow> mem \<Rightarrow> addr \<times> mem" where
  "malloc n m = (let a = Suc (brk m) in (a, m\<lparr>blks := (blks m)(a \<mapsto> replicate n 0), brk := a\<rparr>))"

definition free_str :: "addr \<Rightarrow> mem \<Rightarrow> mem option" where
  "free_str a m =
     (if a = 0 then Some m
      else if strs m a = None then None
      else Some (m\<lparr>strs := (strs m)(a := None)\<rparr>))"

definition free_blk :: "addr \<Rightarrow> mem \<Rightarrow> mem option" where
  "free_blk a m =
     (if a = 0 then Some m
      else if blks m a = None then None
      else Some (m\<lparr>blks := (blks m)(a := None)\<rparr>))"

definition max_slots :: nat where
  "max_slots = 2 ^ 56 div 24"

text \<open>
  A copy callback \<open>copy(dst, src, n)\<close> is the function from the contents of the source
  block and the byte count to the contents written to the destination, \<open>None\<close> where its
  behaviour is undefined; \<open>memcpy\<close> writes the first \<open>n\<close> bytes of the source, and reading
  more bytes than the source block has is undefined. A free callback acts on the memory,
  \<open>None\<close> where its behaviour is undefined.
\<close>

definition memcpy :: "byte list \<Rightarrow> nat \<Rightarrow> byte list option" where
  "memcpy src n = (if n \<le> length src then Some (take n src) else None)"

datatype fault = Assertion_failed | Undefined_behaviour | Diverges

section \<open>Arithmetic on doubles\<close>

text \<open>
  A finite non-negative \<open>double\<close> is an integer multiple \<open>m * 2 ^ s / 2 ^ 1074\<close> of the
  smallest subnormal, with \<open>m < 2 ^ 53\<close>. \<open>double_of x\<close> is the double nearest to the
  real number \<open>x \<ge> 0\<close>, ties to the even significand, which is what a conversion to
  \<open>double\<close> and each of \<open>+\<close>, \<open>*\<close> and \<open>/\<close> on doubles returns for the exact value \<open>x\<close>
  in the default rounding mode: \<open>s\<close> is the number of bits of the integer part of
  \<open>x * 2 ^ 1074\<close> beyond 53, and \<open>round_even\<close> rounds the significand. The conversion of a
  double to \<open>long\<close> truncates; it is undefined (\<open>None\<close>) where the truncated value is no
  \<open>long\<close>, which for the non-negative values here is from \<open>2 ^ 63\<close> on (infinity
  included, so overflow of the double range ends there too).
\<close>

definition round_even :: "real \<Rightarrow> int" where
  "round_even q = (let f = \<lfloor>q\<rfloor>; r = q - of_int f in
     if r < 1 / 2 then f else if 1 / 2 < r then f + 1 else if even f then f else f + 1)"

definition denorm :: nat where
  "denorm = 1074"

definition shift_of :: "real \<Rightarrow> nat" where
  "shift_of X = floorlog 2 (nat \<lfloor>X\<rfloor>) - 53"

definition double_of :: "real \<Rightarrow> real" where
  "double_of x = (let X = x * 2 ^ denorm; s = shift_of X in
     of_int (round_even (X / 2 ^ s)) * 2 ^ s / 2 ^ denorm)"

definition to_long :: "real \<Rightarrow> nat option" where
  "to_long x = (if 0 \<le> x \<and> x < 2 ^ 63 then Some (nat \<lfloor>x\<rfloor>) else None)"

text \<open>
  The two expressions on doubles of the file: \<open>capacity / load_factor + 1\<close> converted to
  \<open>long\<close> (in \<open>hmap_create_full\<close> and \<open>x__hmap_resize_items\<close>), and the test
  \<open>n > capacity * load_factor\<close> (in \<open>hmap_insert\<close>), where the \<open>long\<close>s \<open>capacity\<close> and \<open>n\<close>
  are converted to \<open>double\<close> first.
\<close>

definition grown :: "nat \<Rightarrow> real \<Rightarrow> nat option" where
  "grown cap lf = to_long (double_of (double_of (double_of (real cap) / lf) + 1))"

definition over_load :: "nat \<Rightarrow> nat \<Rightarrow> real \<Rightarrow> bool" where
  "over_load n cap lf \<longleftrightarrow> double_of (double_of (real cap) * lf) < double_of (real n)"

section \<open>hash.h\<close>

text \<open>
  \<open>int c = *str++\<close> reads a \<open>char\<close>, signed on the usual ABI, and \<open>hash ^= c\<close> converts
  it to 64 bits with sign extension. Arithmetic on \<open>uint64_t\<close> wraps.
\<close>

fun strhash_fnv1a_loop :: "string \<Rightarrow> 64 word \<Rightarrow> 64 word" where
  "strhash_fnv1a_loop [] hash = hash"
| "strhash_fnv1a_loop (c # str) hash =
     strhash_fnv1a_loop str ((hash XOR scast (of_char c :: byte)) * 0x00000100000001b3)"

definition strhash_fnv1a :: "string \<Rightarrow> 64 word" where
  "strhash_fnv1a str = strhash_fnv1a_loop str 0xcbf29ce484222325"

section \<open>hmap.h: the keyed table\<close>

text \<open>
  The fields \<open>size\<close>, \<open>capacity\<close>, \<open>data_size\<close> and \<open>max_dist\<close> are C \<open>long\<close>s. The code
  asserts the two it is given non-negative, only counts the others up from 0, and
  decrements \<open>size\<close> only after testing it against 0, so they are natural numbers here
  (overflow of a 64-bit count of slots is out of reach of any allocation).
  \<open>load_factor\<close> is a \<open>double\<close>, a real number in the range of \<open>double_of\<close>:
  \<open>hmap_create_full\<close> takes the number the caller wrote and converts it, as the compiler
  does with a literal (a double is converted to itself).
\<close>

record hmap_item =
  key :: addr
  data :: addr
  hash :: "64 word"

record hmap =
  size_h :: nat
  capacity :: nat
  data_size :: nat
  max_dist :: nat
  load_factor :: real
  key_hash :: "(string \<Rightarrow> 64 word) option"
  data_copy :: "(byte list \<Rightarrow> nat \<Rightarrow> byte list option) option"
  data_free :: "(addr \<Rightarrow> mem \<Rightarrow> mem option) option"
  item :: "hmap_item list option"

definition zero_item :: hmap_item where
  "zero_item = \<lparr>key = 0, data = 0, hash = 0\<rparr>"

definition zero_hmap :: hmap where
  "zero_hmap = \<lparr>size_h = 0, capacity = 0, data_size = 0, max_dist = 0, load_factor = 0,
     key_hash = None, data_copy = None, data_free = None, item = None\<rparr>"

definition hmap_create_full ::
  "int \<Rightarrow> int \<Rightarrow> real \<Rightarrow> (string \<Rightarrow> 64 word) option \<Rightarrow>
   (byte list \<Rightarrow> nat \<Rightarrow> byte list option) option \<Rightarrow>
   (addr \<Rightarrow> mem \<Rightarrow> mem option) option \<Rightarrow> fault + hmap" where
  "hmap_create_full cap dsize lf0 khash dcopy dfree =
     (let lf = double_of lf0 in
      if \<not> cap \<ge> 0 then Inl Assertion_failed
      else if \<not> dsize \<ge> 0 then Inl Assertion_failed
      else if \<not> (0 < lf \<and> lf < 1) then Inl Assertion_failed
      else if khash = None then Inl Assertion_failed
      else case grown (nat cap) lf of
             None \<Rightarrow> Inl Undefined_behaviour
           | Some capacity' \<Rightarrow>
               Inr (zero_hmap\<lparr>capacity := capacity', data_size := nat dsize,
                      load_factor := lf, key_hash := khash, data_copy := dcopy,
                      data_free := dfree\<rparr>))"

definition hmap_create :: "int \<Rightarrow> int \<Rightarrow> fault + hmap" where
  "hmap_create cap dsize =
     hmap_create_full cap dsize 0.75 (Some strhash_fnv1a) (Some memcpy) (Some free_blk)"

definition x__hmap_create_items :: "hmap \<Rightarrow> fault + hmap" where
  "x__hmap_create_items h =
     (if capacity h > max_slots then Inl Assertion_failed
      else Inr (h\<lparr>item := Some (replicate (capacity h) zero_item)\<rparr>))"

text \<open>
  The two \<open>while\<close> loops of the file walk the slots from a start index, one step at a
  time and wrapping at the capacity, counting the steps, for as long as the slot is
  \<open>busy\<close>. Nothing in the loop bounds the walk: where every slot is busy it does not
  return, which is \<open>None\<close>.
\<close>

partial_function (option) probe :: "(nat \<Rightarrow> bool) \<Rightarrow> nat \<Rightarrow> nat \<Rightarrow> nat \<Rightarrow> (nat \<times> nat) option" where
  "probe busy cap i d = (if busy i then probe busy cap ((i + 1) mod cap) (d + 1) else Some (i, d))"

text \<open>
  The \<open>for\<close> loop of \<open>x__hmap_resize_items\<close> over the old slots; \<open>item'\<close>, \<open>capacity'\<close>
  and \<open>max_dist'\<close> are the locals \<open>_item\<close>, \<open>_capacity\<close> and \<open>_max_dist\<close>.
\<close>

fun resize_loop :: "hmap_item list \<Rightarrow> nat \<Rightarrow> hmap_item list \<Rightarrow> nat \<Rightarrow> (hmap_item list \<times> nat) option" where
  "resize_loop [] capacity' item' max_dist' = Some (item', max_dist')"
| "resize_loop (it # rest) capacity' item' max_dist' =
     (if key it = 0 then resize_loop rest capacity' item' max_dist'
      else case probe (\<lambda>i. key (item' ! i) \<noteq> 0) capacity' (unat (hash it) mod capacity') 0 of
             None \<Rightarrow> None
           | Some (i, d) \<Rightarrow>
               resize_loop rest capacity'
                 (item'[i := \<lparr>key = key it, data = data it, hash = hash it\<rparr>])
                 (if d > max_dist' then d else max_dist'))"

text \<open>
  With a zero load factor (a cleared table) the quotient is infinite or not a number
  and its conversion to \<open>long\<close> is undefined, as is that of a quotient from \<open>2 ^ 63\<close> on;
  with a null slot array the loop reads through a null pointer.
\<close>

definition x__hmap_resize_items :: "hmap \<Rightarrow> fault + hmap" where
  "x__hmap_resize_items h =
     (if load_factor h = 0 then Inl Undefined_behaviour
      else case grown (capacity h) (load_factor h) of
        None \<Rightarrow> Inl Undefined_behaviour
      | Some capacity' \<Rightarrow>
          if capacity' > max_slots then Inl Assertion_failed
          else case item h of
            None \<Rightarrow> Inl Undefined_behaviour
          | Some xs \<Rightarrow>
              (case resize_loop xs capacity' (replicate capacity' zero_item) 0 of
                 None \<Rightarrow> Inl Diverges
               | Some (item', max_dist') \<Rightarrow>
                   Inr (h\<lparr>item := Some item', capacity := capacity', max_dist := max_dist'\<rparr>)))"

text \<open>
  \<open>x__hmap_item_create\<close> fills the slot it is given; here it returns the slot. Copying
  from a pointer that is no block is undefined, as is a copy the callback leaves
  undefined.
\<close>

definition x__hmap_item_create ::
  "hmap \<Rightarrow> string \<Rightarrow> addr \<Rightarrow> 64 word \<Rightarrow> mem \<Rightarrow> fault + (hmap_item \<times> mem)" where
  "x__hmap_item_create h k dat hv m =
     (let (ka, m1) = strdup k m in
      if dat \<noteq> 0 \<and> data_copy h \<noteq> None then
        (case blks m1 dat of
           None \<Rightarrow> Inl Undefined_behaviour
         | Some src \<Rightarrow>
             (let (da, m2) = malloc (data_size h) m1 in
              case the (data_copy h) src (data_size h) of
                None \<Rightarrow> Inl Undefined_behaviour
              | Some bytes \<Rightarrow>
                  Inr (\<lparr>key = ka, data = da, hash = hv\<rparr>,
                       m2\<lparr>blks := (blks m2)(da \<mapsto> bytes)\<rparr>)))
      else Inr (\<lparr>key = ka, data = dat, hash = hv\<rparr>, m1))"

text \<open>
  \<open>strcmp(item->key, key)\<close> reads the string a live slot points to. A key pointer is
  set by \<open>strdup\<close> only and released only when its slot is cleared, so it is a string of
  the heap; an address that is no string compares unequal to every key.
\<close>

definition hmap_insert ::
  "hmap \<Rightarrow> string \<Rightarrow> addr \<Rightarrow> bool \<Rightarrow> mem \<Rightarrow> fault + (addr \<times> hmap \<times> mem)" where
  "hmap_insert h0 k dat keep m =
     (case (if item h0 = None then x__hmap_create_items h0 else Inr h0) of
        Inl e \<Rightarrow> Inl e
      | Inr h1 \<Rightarrow>
     (case (if over_load (size_h h1 + 1) (capacity h1) (load_factor h1)
            then x__hmap_resize_items h1 else Inr h1) of
        Inl e \<Rightarrow> Inl e
      | Inr h \<Rightarrow>
          (case (key_hash h, item h) of
             (Some khash, Some xs) \<Rightarrow>
               if capacity h = 0 then Inl Undefined_behaviour
               else
                 (let hv = khash k in
                  case probe (\<lambda>i. key (xs ! i) \<noteq> 0 \<and>
                                   (hash (xs ! i) \<noteq> hv \<or> strs m (key (xs ! i)) \<noteq> Some k))
                         (capacity h) (unat hv mod capacity h) 0 of
                    None \<Rightarrow> Inl Diverges
                  | Some (i, d) \<Rightarrow>
                      if key (xs ! i) = 0 then
                        (case x__hmap_item_create h k dat hv m of
                           Inl e \<Rightarrow> Inl e
                         | Inr (it, m') \<Rightarrow>
                             Inr (0, h\<lparr>item := Some (xs[i := it]),
                                       max_dist := (if d > max_dist h then d else max_dist h),
                                       size_h := size_h h + 1\<rparr>, m'))
                      else
                        Inr (data (xs ! i),
                             h\<lparr>item := Some (xs[i := (xs ! i)\<lparr>data := (if \<not> keep then dat else data (xs ! i))\<rparr>])\<rparr>,
                             m))
           | _ \<Rightarrow> Inl Undefined_behaviour)))"

text \<open>The bounded \<open>for\<close> loops of \<open>hmap_find\<close> and \<open>hmap_remove\<close>.\<close>

function hmap_find_loop ::
  "hmap_item list \<Rightarrow> nat \<Rightarrow> nat \<Rightarrow> mem \<Rightarrow> 64 word \<Rightarrow> string \<Rightarrow> nat \<Rightarrow> nat \<Rightarrow> addr" where
  "hmap_find_loop xs cap mdist m hv k i d =
     (if d \<le> mdist then
        (if key (xs ! i) \<noteq> 0 \<and> hash (xs ! i) = hv \<and> strs m (key (xs ! i)) = Some k
         then data (xs ! i)
         else hmap_find_loop xs cap mdist m hv k ((i + 1) mod cap) (d + 1))
      else 0)"
  by pat_completeness auto
termination
  by (relation "measure (\<lambda>(xs, cap, mdist, m, hv, k, i, d). Suc mdist - d)") auto

definition hmap_find :: "hmap \<Rightarrow> string \<Rightarrow> mem \<Rightarrow> fault + addr" where
  "hmap_find h k m =
     (if size_h h = 0 then Inr 0
      else case (key_hash h, item h) of
        (Some khash, Some xs) \<Rightarrow>
          if capacity h = 0 then Inl Undefined_behaviour
          else Inr (hmap_find_loop xs (capacity h) (max_dist h) m (khash k) k
                      (unat (khash k) mod capacity h) 0)
      | _ \<Rightarrow> Inl Undefined_behaviour)"

text \<open>The loop of \<open>hmap_remove\<close> returns the index of the slot it clears, if any.\<close>

function hmap_remove_loop ::
  "hmap_item list \<Rightarrow> nat \<Rightarrow> nat \<Rightarrow> mem \<Rightarrow> 64 word \<Rightarrow> string \<Rightarrow> nat \<Rightarrow> nat \<Rightarrow> nat option" where
  "hmap_remove_loop xs cap mdist m hv k i d =
     (if d \<le> mdist then
        (if key (xs ! i) \<noteq> 0 \<and> hash (xs ! i) = hv \<and> strs m (key (xs ! i)) = Some k
         then Some i
         else hmap_remove_loop xs cap mdist m hv k ((i + 1) mod cap) (d + 1))
      else None)"
  by pat_completeness auto
termination
  by (relation "measure (\<lambda>(xs, cap, mdist, m, hv, k, i, d). Suc mdist - d)") auto

definition hmap_remove :: "hmap \<Rightarrow> string \<Rightarrow> mem \<Rightarrow> fault + (addr \<times> hmap \<times> mem)" where
  "hmap_remove h k m =
     (if size_h h = 0 then Inr (0, h, m)
      else case (key_hash h, item h) of
        (Some khash, Some xs) \<Rightarrow>
          if capacity h = 0 then Inl Undefined_behaviour
          else
            (case hmap_remove_loop xs (capacity h) (max_dist h) m (khash k) k
                    (unat (khash k) mod capacity h) 0 of
               Some i \<Rightarrow>
                 (case free_str (key (xs ! i)) m of
                    None \<Rightarrow> Inl Undefined_behaviour
                  | Some m' \<Rightarrow>
                      Inr (data (xs ! i),
                           h\<lparr>item := Some (xs[i := zero_item]), size_h := size_h h - 1\<rparr>,
                           m'))
             | None \<Rightarrow> Inr (0, h, m))
      | _ \<Rightarrow> Inl Undefined_behaviour)"

text \<open>
  The loop of \<open>hmap_clear\<close> over the slots: \<open>free\<close> of the key, then the free callback on
  the data pointer. The call is undefined as soon as one of them is.
\<close>

fun hmap_clear_loop ::
  "hmap_item list \<Rightarrow> (addr \<Rightarrow> mem \<Rightarrow> mem option) option \<Rightarrow> mem \<Rightarrow> mem option" where
  "hmap_clear_loop [] dfree m = Some m"
| "hmap_clear_loop (it # rest) dfree m =
     (if key it = 0 then hmap_clear_loop rest dfree m
      else case free_str (key it) m of
             None \<Rightarrow> None
           | Some m1 \<Rightarrow>
               (case dfree of
                  None \<Rightarrow> hmap_clear_loop rest dfree m1
                | Some f \<Rightarrow>
                    (case f (data it) m1 of
                       None \<Rightarrow> None
                     | Some m2 \<Rightarrow> hmap_clear_loop rest dfree m2)))"

definition hmap_clear :: "hmap \<Rightarrow> mem \<Rightarrow> fault + (hmap \<times> mem)" where
  "hmap_clear h m =
     (case item h of
        None \<Rightarrow> Inr (h, m)
      | Some xs \<Rightarrow>
          (case hmap_clear_loop xs (data_free h) m of
             None \<Rightarrow> Inl Undefined_behaviour
           | Some m' \<Rightarrow> Inr (zero_hmap, m')))"

text \<open>
  \<open>hmap_copy\<close> passes each live slot's key pointer and data pointer to \<open>hmap_insert\<close>,
  with \<open>keep\<close> 0. With a non-zero size and a null slot array the loop reads through a
  null pointer; a key pointer that is no string cannot be read.
\<close>

fun hmap_copy_loop :: "hmap_item list \<Rightarrow> mem \<Rightarrow> hmap \<Rightarrow> fault + (hmap \<times> mem)" where
  "hmap_copy_loop [] m copy = Inr (copy, m)"
| "hmap_copy_loop (it # rest) m copy =
     (if key it \<noteq> 0 then
        (case strs m (key it) of
           None \<Rightarrow> Inl Undefined_behaviour
         | Some k \<Rightarrow>
             (case hmap_insert copy k (data it) False m of
                Inl e \<Rightarrow> Inl e
              | Inr (r, copy', m') \<Rightarrow> hmap_copy_loop rest m' copy'))
      else hmap_copy_loop rest m copy)"

definition hmap_copy :: "hmap \<Rightarrow> mem \<Rightarrow> fault + (hmap \<times> mem)" where
  "hmap_copy h m =
     (case hmap_create_full (int (size_h h)) (int (data_size h)) (load_factor h) (key_hash h)
             (data_copy h) (data_free h) of
        Inl e \<Rightarrow> Inl e
      | Inr copy \<Rightarrow>
          if size_h h = 0 then Inr (copy, m)
          else (case item h of
                  None \<Rightarrow> Inl Undefined_behaviour
                | Some xs \<Rightarrow> hmap_copy_loop xs m copy))"

section \<open>Slots, displacement and the invariant of a table\<close>

text \<open>
  The ideal slot of a hash in an array of \<open>cap\<close> slots, and the displacement of slot
  \<open>i\<close> from it: the number of forward steps, wrapping, from the ideal slot to \<open>i\<close>.
\<close>

definition ideal :: "nat \<Rightarrow> 64 word \<Rightarrow> nat" where
  "ideal cap hv = unat hv mod cap"

definition disp :: "nat \<Rightarrow> 64 word \<Rightarrow> nat \<Rightarrow> nat" where
  "disp cap hv i = (i + cap - ideal cap hv) mod cap"

text \<open>
  For a slot array with occupancy test \<open>lv\<close> and cached hash \<open>hs\<close>: every live slot lies
  within \<open>md\<close> steps of its ideal slot (\<open>disp_ok\<close>), and every slot between the ideal slot
  of a live slot and that slot is live (\<open>nogap\<close>).
\<close>

definition disp_ok :: "('a \<Rightarrow> bool) \<Rightarrow> ('a \<Rightarrow> 64 word) \<Rightarrow> 'a list \<Rightarrow> nat \<Rightarrow> bool" where
  "disp_ok lv hs xs md \<longleftrightarrow>
     (\<forall>i<length xs. lv (xs ! i) \<longrightarrow> disp (length xs) (hs (xs ! i)) i \<le> md)"

definition nogap :: "('a \<Rightarrow> bool) \<Rightarrow> ('a \<Rightarrow> 64 word) \<Rightarrow> 'a list \<Rightarrow> bool" where
  "nogap lv hs xs \<longleftrightarrow>
     (\<forall>i<length xs. lv (xs ! i) \<longrightarrow>
        (\<forall>j<disp (length xs) (hs (xs ! i)) i.
           lv (xs ! ((ideal (length xs) (hs (xs ! i)) + j) mod length xs))))"

text \<open>
  The rehashing loop over any slot type, with the occupancy test and the cached hash as
  parameters; \<open>resize_loop\<close> is the instance for the slots of the keyed table.
\<close>

fun rehash_loop ::
  "('a \<Rightarrow> bool) \<Rightarrow> ('a \<Rightarrow> 64 word) \<Rightarrow> 'a list \<Rightarrow> nat \<Rightarrow> 'a list \<Rightarrow> nat \<Rightarrow> ('a list \<times> nat) option" where
  "rehash_loop lv hs [] cap new md = Some (new, md)"
| "rehash_loop lv hs (it # rest) cap new md =
     (if \<not> lv it then rehash_loop lv hs rest cap new md
      else case probe (\<lambda>i. lv (new ! i)) cap (ideal cap (hs it)) 0 of
             None \<Rightarrow> None
           | Some (i, d) \<Rightarrow> rehash_loop lv hs rest cap (new[i := it]) (max md d))"

definition live :: "hmap_item \<Rightarrow> bool" where
  "live it \<longleftrightarrow> key it \<noteq> 0"

text \<open>
  A live slot is well formed when its key pointer is a string of the heap handed out by
  the allocator and its cached hash is the hash of that string.
\<close>

definition item_ok :: "(string \<Rightarrow> 64 word) \<Rightarrow> mem \<Rightarrow> hmap_item \<Rightarrow> bool" where
  "item_ok khash m it \<longleftrightarrow>
     key it \<le> brk m \<and> (case strs m (key it) of None \<Rightarrow> False | Some s \<Rightarrow> hash it = khash s)"

definition slots_inv :: "(string \<Rightarrow> 64 word) \<Rightarrow> mem \<Rightarrow> hmap_item list \<Rightarrow> nat \<Rightarrow> bool" where
  "slots_inv khash m xs md \<longleftrightarrow>
     distinct (map key (filter live xs)) \<and>
     (\<forall>it\<in>set xs. live it \<longrightarrow> item_ok khash m it) \<and>
     disp_ok live hash xs md"

definition hinv :: "hmap \<Rightarrow> mem \<Rightarrow> bool" where
  "hinv h m \<longleftrightarrow>
     0 < load_factor h \<and> load_factor h < 1 \<and> 1 \<le> capacity h \<and>
     (case key_hash h of
        None \<Rightarrow> False
      | Some khash \<Rightarrow>
          (case item h of
             None \<Rightarrow> size_h h = 0
           | Some xs \<Rightarrow>
               length xs = capacity h \<and> capacity h \<le> max_slots \<and>
               size_h h = length (filter live xs) \<and>
               slots_inv khash m xs (max_dist h)))"

text \<open>
  The two halves of \<open>hmap_insert\<close>, named for the proofs: allocating and growing the
  slot array, and probing for the key's slot and filling it.
\<close>

definition insert_grow :: "hmap \<Rightarrow> fault + hmap" where
  "insert_grow h0 =
     (case (if item h0 = None then x__hmap_create_items h0 else Inr h0) of
        Inl e \<Rightarrow> Inl e
      | Inr h1 \<Rightarrow>
          if over_load (size_h h1 + 1) (capacity h1) (load_factor h1)
          then x__hmap_resize_items h1 else Inr h1)"

definition insert_busy :: "hmap_item list \<Rightarrow> mem \<Rightarrow> 64 word \<Rightarrow> string \<Rightarrow> nat \<Rightarrow> bool" where
  "insert_busy xs m hv k i \<longleftrightarrow>
     key (xs ! i) \<noteq> 0 \<and> (hash (xs ! i) \<noteq> hv \<or> strs m (key (xs ! i)) \<noteq> Some k)"

definition insert_place ::
  "hmap \<Rightarrow> string \<Rightarrow> addr \<Rightarrow> bool \<Rightarrow> mem \<Rightarrow> fault + (addr \<times> hmap \<times> mem)" where
  "insert_place h k dat keep m =
     (case (key_hash h, item h) of
        (Some khash, Some xs) \<Rightarrow>
          if capacity h = 0 then Inl Undefined_behaviour
          else
            (case probe (insert_busy xs m (khash k) k) (capacity h) (unat (khash k) mod capacity h) 0 of
               None \<Rightarrow> Inl Diverges
             | Some (i, d) \<Rightarrow>
                 if key (xs ! i) = 0 then
                   (case x__hmap_item_create h k dat (khash k) m of
                      Inl e \<Rightarrow> Inl e
                    | Inr (it, m') \<Rightarrow>
                        Inr (0, h\<lparr>item := Some (xs[i := it]),
                                  max_dist := (if d > max_dist h then d else max_dist h),
                                  size_h := size_h h + 1\<rparr>, m'))
                 else
                   Inr (data (xs ! i),
                        h\<lparr>item := Some (xs[i := (xs ! i)\<lparr>data := (if \<not> keep then dat else data (xs ! i))\<rparr>])\<rparr>,
                        m))
      | _ \<Rightarrow> Inl Undefined_behaviour)"

text \<open>
  \<open>copy_ok h m dat\<close>: \<open>x__hmap_item_create\<close> can copy from the pointer \<open>dat\<close> (it is null,
  or no copy callback is set, or it is a block that the callback copies). \<open>drop_str\<close> is
  the memory after \<open>free\<close> of a string.
\<close>

definition copy_ok :: "hmap \<Rightarrow> mem \<Rightarrow> addr \<Rightarrow> bool" where
  "copy_ok h m dat \<longleftrightarrow>
     dat = 0 \<or> data_copy h = None \<or>
     (blks m dat \<noteq> None \<and> the (data_copy h) (the (blks m dat)) (data_size h) \<noteq> None)"

text \<open>
  \<open>valid_data h m0 dat\<close>: the pointer \<open>dat\<close> of a caller with the memory \<open>m0\<close> is one that
  \<open>hmap_insert\<close> can take: null, or any pointer when no copy callback is set, or a block
  of the caller that the copy callback copies.
\<close>

definition valid_data :: "hmap \<Rightarrow> mem \<Rightarrow> addr \<Rightarrow> bool" where
  "valid_data h m0 dat \<longleftrightarrow>
     dat = 0 \<or> data_copy h = None \<or>
     (dat \<le> brk m0 \<and> blks m0 dat \<noteq> None \<and>
      the (data_copy h) (the (blks m0 dat)) (data_size h) \<noteq> None)"

definition drop_str :: "addr \<Rightarrow> mem \<Rightarrow> mem" where
  "drop_str a m = m\<lparr>strs := (strs m)(a := None)\<rparr>"

text \<open>The growth test of \<open>hmap_insert\<close>.\<close>

definition grows :: "hmap \<Rightarrow> bool" where
  "grows h \<longleftrightarrow> over_load (size_h h + 1) (capacity h) (load_factor h)"

text \<open>
  \<open>mem_sub m m'\<close>: the memory \<open>m'\<close> extends \<open>m\<close>, every address handed out in \<open>m\<close> holds
  in \<open>m'\<close> what it held in \<open>m\<close>.
\<close>

definition mem_sub :: "mem \<Rightarrow> mem \<Rightarrow> bool" where
  "mem_sub m m' \<longleftrightarrow>
     brk m \<le> brk m' \<and> (\<forall>a\<le>brk m. strs m' a = strs m a \<and> blks m' a = blks m a)"

text \<open>The test of the loops of \<open>hmap_find\<close> and \<open>hmap_remove\<close> on slot \<open>i\<close>.\<close>

definition matches :: "hmap_item list \<Rightarrow> mem \<Rightarrow> 64 word \<Rightarrow> string \<Rightarrow> nat \<Rightarrow> bool" where
  "matches xs m hv k i \<longleftrightarrow>
     key (xs ! i) \<noteq> 0 \<and> hash (xs ! i) = hv \<and> strs m (key (xs ! i)) = Some k"

text \<open>
  The number of slots the loop of \<open>hmap_find\<close> inspects: one for each evaluation of the
  test in its body, along the recursion of \<open>hmap_find_loop\<close>.
\<close>

function hmap_find_loop_count ::
  "hmap_item list \<Rightarrow> nat \<Rightarrow> nat \<Rightarrow> mem \<Rightarrow> 64 word \<Rightarrow> string \<Rightarrow> nat \<Rightarrow> nat \<Rightarrow> nat" where
  "hmap_find_loop_count xs cap mdist m hv k i d =
     (if d \<le> mdist then
        (if key (xs ! i) \<noteq> 0 \<and> hash (xs ! i) = hv \<and> strs m (key (xs ! i)) = Some k
         then 1
         else 1 + hmap_find_loop_count xs cap mdist m hv k ((i + 1) mod cap) (d + 1))
      else 0)"
  by pat_completeness auto
termination
  by (relation "measure (\<lambda>(xs, cap, mdist, m, hv, k, i, d). Suc mdist - d)") auto

definition hmap_find_count :: "hmap \<Rightarrow> string \<Rightarrow> mem \<Rightarrow> nat" where
  "hmap_find_count h k m =
     (if size_h h = 0 then 0
      else case (key_hash h, item h) of
        (Some khash, Some xs) \<Rightarrow>
          if capacity h = 0 then 0
          else hmap_find_loop_count xs (capacity h) (max_dist h) m (khash k) k
                 (unat (khash k) mod capacity h) 0
      | _ \<Rightarrow> 0)"

text \<open>
  Sequences of calls on one table. \<open>Resize\<close> is the call of \<open>x__hmap_resize_items\<close>,
  which the file makes from \<open>hmap_insert\<close>; the results of the calls are dropped.
\<close>

datatype call = Insert string addr bool | Remove string | Resize

fun step :: "call \<Rightarrow> hmap \<times> mem \<Rightarrow> fault + (hmap \<times> mem)" where
  "step (Insert k dat keep) (h, m) =
     (case hmap_insert h k dat keep m of Inl e \<Rightarrow> Inl e | Inr (r, h', m') \<Rightarrow> Inr (h', m'))"
| "step (Remove k) (h, m) =
     (case hmap_remove h k m of Inl e \<Rightarrow> Inl e | Inr (r, h', m') \<Rightarrow> Inr (h', m'))"
| "step Resize (h, m) =
     (case x__hmap_resize_items h of Inl e \<Rightarrow> Inl e | Inr h' \<Rightarrow> Inr (h', m))"

fun run :: "call list \<Rightarrow> hmap \<times> mem \<Rightarrow> fault + (hmap \<times> mem)" where
  "run [] s = Inr s"
| "run (c # cs) s = (case step c s of Inl e \<Rightarrow> Inl e | Inr s' \<Rightarrow> run cs s')"

text \<open>
  The states after each call of a sequence of calls of \<open>hmap_insert\<close> (key, data
  pointer, keep flag), up to the first call that does not return.
\<close>

fun insert_trace :: "(string \<times> addr \<times> bool) list \<Rightarrow> hmap \<Rightarrow> mem \<Rightarrow> (hmap \<times> mem) list" where
  "insert_trace [] h m = []"
| "insert_trace ((k, dat, keep) # rest) h m =
     (case hmap_insert h k dat keep m of
        Inl e \<Rightarrow> []
      | Inr (r, h', m') \<Rightarrow> (h', m') # insert_trace rest h' m')"

text \<open>
  The memory of a caller holding the \<open>int\<close>s 1, 2 and 3 (four bytes, little endian) at
  the addresses 1, 2 and 3.
\<close>

definition caller_mem :: mem where
  "caller_mem = \<lparr>strs = (\<lambda>_. None),
                  blks = [1 \<mapsto> [1, 0, 0, 0], 2 \<mapsto> [2, 0, 0, 0], 3 \<mapsto> [3, 0, 0, 0]],
                  brk = 3\<rparr>"

text \<open>
  The table \<open>hmap_create(2, 4)\<close> returns (\<open>hmap_create_2_4\<close> below), and three calls of
  \<open>hmap_insert\<close> on it with the keys a, b, c, the caller's blocks and \<open>keep\<close> 0.
\<close>

definition table0 :: hmap where
  "table0 = \<lparr>size_h = 0, capacity = 3, data_size = 4, max_dist = 0, load_factor = 0.75,
     key_hash = Some strhash_fnv1a, data_copy = Some memcpy, data_free = Some free_blk,
     item = None\<rparr>"

definition abc :: "(string \<times> addr \<times> bool) list" where
  "abc = [(''a'', 1, False), (''b'', 2, False), (''c'', 3, False)]"

text \<open>A key is present in a table when a live slot points to a string equal to it.\<close>

definition present :: "hmap \<Rightarrow> mem \<Rightarrow> string \<Rightarrow> bool" where
  "present h m k \<longleftrightarrow>
     (case item h of
        None \<Rightarrow> False
      | Some xs \<Rightarrow> \<exists>i<length xs. key (xs ! i) \<noteq> 0 \<and> strs m (key (xs ! i)) = Some k)"

text \<open>
  States of that table, written out: after the calls for a and b (\<open>table_ab\<close>), after
  the call for c as well (\<open>table_abc\<close>), after a and b and the removal of a
  (\<open>table_b\<close>) and a second insertion of b (\<open>table_bb\<close>), and after two insertions of
  a (\<open>table_aa\<close>); each with the memory it is reached in.
\<close>

definition slot :: "addr \<Rightarrow> addr \<Rightarrow> string \<Rightarrow> hmap_item" where
  "slot ka da k = \<lparr>key = ka, data = da, hash = strhash_fnv1a k\<rparr>"

definition table_ab :: hmap where
  "table_ab = table0\<lparr>size_h := 2, max_dist := 1,
     item := Some [zero_item, slot 4 5 ''a'', slot 6 7 ''b'']\<rparr>"

definition mem_ab :: mem where
  "mem_ab = \<lparr>strs = [4 \<mapsto> ''a'', 6 \<mapsto> ''b''],
              blks = (blks caller_mem)(5 \<mapsto> [1, 0, 0, 0], 7 \<mapsto> [2, 0, 0, 0]),
              brk = 7\<rparr>"

definition table_abc :: hmap where
  "table_abc = table0\<lparr>size_h := 3, capacity := 5,
     item := Some [zero_item, slot 4 5 ''a'', zero_item, slot 8 9 ''c'', slot 6 7 ''b'']\<rparr>"

definition mem_abc :: mem where
  "mem_abc = \<lparr>strs = [4 \<mapsto> ''a'', 6 \<mapsto> ''b'', 8 \<mapsto> ''c''],
               blks = (blks caller_mem)(5 \<mapsto> [1, 0, 0, 0], 7 \<mapsto> [2, 0, 0, 0], 9 \<mapsto> [3, 0, 0, 0]),
               brk = 9\<rparr>"

definition table_b :: hmap where
  "table_b = table0\<lparr>size_h := 1, max_dist := 1,
     item := Some [zero_item, zero_item, slot 6 7 ''b'']\<rparr>"

definition mem_b :: mem where
  "mem_b = \<lparr>strs = [6 \<mapsto> ''b''],
             blks = (blks caller_mem)(5 \<mapsto> [1, 0, 0, 0], 7 \<mapsto> [2, 0, 0, 0]),
             brk = 7\<rparr>"

definition table_bb :: hmap where
  "table_bb = table0\<lparr>size_h := 2, max_dist := 1,
     item := Some [zero_item, slot 8 9 ''b'', slot 6 7 ''b'']\<rparr>"

definition mem_bb :: mem where
  "mem_bb = \<lparr>strs = [6 \<mapsto> ''b'', 8 \<mapsto> ''b''],
              blks = (blks caller_mem)(5 \<mapsto> [1, 0, 0, 0], 7 \<mapsto> [2, 0, 0, 0], 9 \<mapsto> [3, 0, 0, 0]),
              brk = 9\<rparr>"

definition table_a :: hmap where
  "table_a = table0\<lparr>size_h := 1, item := Some [zero_item, slot 4 5 ''a'', zero_item]\<rparr>"

definition mem_a :: mem where
  "mem_a = \<lparr>strs = [4 \<mapsto> ''a''], blks = (blks caller_mem)(5 \<mapsto> [1, 0, 0, 0]), brk = 5\<rparr>"

definition table_aa :: hmap where
  "table_aa = table0\<lparr>size_h := 1, item := Some [zero_item, slot 4 2 ''a'', zero_item]\<rparr>"

text \<open>
  What a table holds: \<open>stored h m k p\<close> when a live slot points to a string equal to \<open>k\<close>
  and has the data pointer \<open>p\<close>; \<open>live_keys\<close> lists the key strings of the live slots.
  \<open>val_ok m0 h m dat p\<close> relates the pointer \<open>dat\<close> a caller passed in the memory \<open>m0\<close> to
  the pointer \<open>p\<close> stored for it: a block allocated since \<open>m0\<close> holding what the copy
  callback made of the caller's block, or \<open>dat\<close> itself when it is null or no copy
  callback is set. \<open>tracks\<close> is the invariant of a sequence of insertions of distinct
  keys.
\<close>

definition stored :: "hmap \<Rightarrow> mem \<Rightarrow> string \<Rightarrow> addr \<Rightarrow> bool" where
  "stored h m k p \<longleftrightarrow>
     (case item h of
        None \<Rightarrow> False
      | Some xs \<Rightarrow> \<exists>it\<in>set xs. key it \<noteq> 0 \<and> strs m (key it) = Some k \<and> data it = p)"

definition live_keys :: "hmap \<Rightarrow> mem \<Rightarrow> string list" where
  "live_keys h m =
     (case item h of
        None \<Rightarrow> []
      | Some xs \<Rightarrow> map (\<lambda>it. the (strs m (key it))) (filter live xs))"

definition val_ok :: "mem \<Rightarrow> hmap \<Rightarrow> mem \<Rightarrow> addr \<Rightarrow> addr \<Rightarrow> bool" where
  "val_ok m0 h m dat p \<longleftrightarrow>
     (if dat \<noteq> 0 \<and> data_copy h \<noteq> None
      then brk m0 < p \<and> p \<le> brk m \<and>
           the (data_copy h) (the (blks m0 dat)) (data_size h) \<noteq> None \<and>
           blks m p = the (data_copy h) (the (blks m0 dat)) (data_size h)
      else p = dat)"

definition tracks :: "mem \<Rightarrow> (string \<times> addr \<times> bool) list \<Rightarrow> hmap \<Rightarrow> mem \<Rightarrow> bool" where
  "tracks m0 ins h m \<longleftrightarrow>
     hinv h m \<and> mem_sub m0 m \<and> mset (live_keys h m) = mset (map fst ins) \<and>
     (\<forall>(k, dat, keep)\<in>set ins. \<exists>p. stored h m k p \<and> val_ok m0 h m dat p)"

definition insert_calls :: "(string \<times> addr \<times> bool) list \<Rightarrow> call list" where
  "insert_calls ins = map (\<lambda>(k, dat, keep). Insert k dat keep) ins"
section \<open>Rounding to double is monotone and exact on small integers\<close>

lemma round_even_floor: "\<lfloor>q\<rfloor> \<le> round_even q \<and> round_even q \<le> \<lfloor>q\<rfloor> + 1"
  by (simp add: round_even_def Let_def)

lemma round_even_int [simp]: "round_even (of_int n) = n"
  by (simp add: round_even_def Let_def)

lemma round_even_mono:
  assumes "q \<le> q'"
  shows "round_even q \<le> round_even q'"
proof (cases "\<lfloor>q\<rfloor> = \<lfloor>q'\<rfloor>")
  case True
  then show ?thesis using assms by (auto simp add: round_even_def Let_def)
next
  case False
  then have "\<lfloor>q\<rfloor> < \<lfloor>q'\<rfloor>" using assms floor_mono [OF assms] by linarith
  then show ?thesis using round_even_floor [of q] round_even_floor [of q'] by linarith
qed

lemma round_even_ge: "of_int n \<le> q \<Longrightarrow> n \<le> round_even q"
  using round_even_mono [of "of_int n" q] by simp

lemma round_even_le: "q \<le> of_int n \<Longrightarrow> round_even q \<le> n"
  using round_even_mono [of q "of_int n"] by simp

lemma shift_of_mono: "X \<le> Y \<Longrightarrow> shift_of X \<le> shift_of Y"
  unfolding shift_of_def
  by (intro diff_le_mono floorlog_mono nat_mono floor_mono)

lemma shift_of_upper:
  assumes "0 \<le> X"
  shows "X < 2 ^ (shift_of X + 53)"
proof (cases "nat \<lfloor>X\<rfloor> = 0")
  case True
  then have "X < 1" using assms by linarith
  also have "(1::real) \<le> 2 ^ (shift_of X + 53)" by simp
  finally show ?thesis .
next
  case False
  then have "nat \<lfloor>X\<rfloor> < 2 ^ floorlog 2 (nat \<lfloor>X\<rfloor>)"
    using floorlog_bounds [of "nat \<lfloor>X\<rfloor>" 2] by simp
  also have "\<dots> \<le> 2 ^ (shift_of X + 53)"
    unfolding shift_of_def by (intro power_increasing) auto
  finally have "nat \<lfloor>X\<rfloor> < 2 ^ (shift_of X + 53)" .
  then have "nat \<lfloor>X\<rfloor> + 1 \<le> 2 ^ (shift_of X + 53)" by linarith
  then have "real (nat \<lfloor>X\<rfloor> + 1) \<le> real (2 ^ (shift_of X + 53))"
    by (rule of_nat_mono)
  moreover have "X < real (nat \<lfloor>X\<rfloor> + 1)" using assms by (simp; linarith)
  ultimately show ?thesis by simp
qed

lemma shift_of_lower:
  assumes "0 < shift_of X"
  shows "2 ^ (shift_of X + 52) \<le> X"
proof -
  have pos: "0 < nat \<lfloor>X\<rfloor>"
    using assms unfolding shift_of_def by (cases "nat \<lfloor>X\<rfloor> = 0") (auto simp: floorlog_def)
  have eq: "floorlog 2 (nat \<lfloor>X\<rfloor>) - 1 = shift_of X + 52"
    using assms unfolding shift_of_def by simp
  have "2 ^ (shift_of X + 52) \<le> nat \<lfloor>X\<rfloor>"
    using floorlog_bounds [of "nat \<lfloor>X\<rfloor>" 2] pos unfolding eq by simp
  then have "int (2 ^ (shift_of X + 52)) \<le> int (nat \<lfloor>X\<rfloor>)" by (rule of_nat_mono)
  then have "2 ^ (shift_of X + 52) \<le> \<lfloor>X\<rfloor>" using pos by simp
  then have "of_int (2 ^ (shift_of X + 52)) \<le> X" by (simp only: le_floor_iff)
  then show ?thesis by simp
qed

lemma double_of_alt:
  "double_of x = of_int (round_even (x * 2 ^ denorm / 2 ^ shift_of (x * 2 ^ denorm))) * 2 ^ shift_of (x * 2 ^ denorm) / 2 ^ denorm"
  by (simp add: double_of_def Let_def)

lemma scaled_mono:
  assumes "0 \<le> X" "X \<le> Y"
  shows "of_int (round_even (X / 2 ^ shift_of X)) * (2::real) ^ shift_of X
       \<le> of_int (round_even (Y / 2 ^ shift_of Y)) * 2 ^ shift_of Y"
proof (cases "shift_of X = shift_of Y")
  case True
  have "X / 2 ^ shift_of Y \<le> Y / 2 ^ shift_of Y" using assms by (simp add: divide_right_mono)
  then have "round_even (X / 2 ^ shift_of Y) \<le> round_even (Y / 2 ^ shift_of Y)"
    by (rule round_even_mono)
  then show ?thesis unfolding True by (simp add: mult_right_mono)
next
  case False
  then have lt: "shift_of X < shift_of Y" using shift_of_mono [OF assms(2)] by simp
  then have "0 < shift_of Y" by simp
  from shift_of_lower [OF this] have "(2::real) ^ 52 \<le> Y / 2 ^ shift_of Y"
    by (simp add: power_add pos_le_divide_eq mult.commute)
  then have "of_int (2 ^ 52) \<le> Y / 2 ^ shift_of Y" by simp
  then have a: "2 ^ 52 \<le> round_even (Y / 2 ^ shift_of Y)" by (rule round_even_ge)
  from shift_of_upper [OF assms(1)] have "X / 2 ^ shift_of X \<le> (2::real) ^ 53"
    by (simp add: power_add pos_divide_le_eq mult.commute)
  then have "X / 2 ^ shift_of X \<le> of_int (2 ^ 53)" by simp
  then have b: "round_even (X / 2 ^ shift_of X) \<le> 2 ^ 53" by (rule round_even_le)
  have b': "real_of_int (round_even (X / 2 ^ shift_of X)) \<le> 2 ^ 53"
    using iffD2 [OF of_int_le_iff [where 'a = real], OF b] by simp
  have a': "2 ^ 52 \<le> real_of_int (round_even (Y / 2 ^ shift_of Y))"
    using iffD2 [OF of_int_le_iff [where 'a = real], OF a] by simp
  have "of_int (round_even (X / 2 ^ shift_of X)) * (2::real) ^ shift_of X \<le> 2 ^ 53 * 2 ^ shift_of X"
    using b' by (intro mult_right_mono) auto
  also have "\<dots> = 2 ^ 52 * 2 ^ Suc (shift_of X)" by simp
  also have "\<dots> \<le> 2 ^ 52 * 2 ^ shift_of Y"
    using lt by (intro mult_left_mono power_increasing) auto
  also have "\<dots> \<le> of_int (round_even (Y / 2 ^ shift_of Y)) * 2 ^ shift_of Y"
    using a' by (intro mult_right_mono) auto
  finally show ?thesis .
qed

lemma double_of_mono:
  assumes "0 \<le> x" "x \<le> y"
  shows "double_of x \<le> double_of y"
proof -
  have "0 \<le> x * 2 ^ denorm" "x * 2 ^ denorm \<le> y * 2 ^ denorm" using assms by simp_all
  from scaled_mono [OF this] show ?thesis
    unfolding double_of_alt by (simp add: divide_right_mono)
qed

lemma double_of_nat:
  assumes "n < 2 ^ 53"
  shows "double_of (real n) = real n"
proof -
  define X where "X = real n * 2 ^ denorm"
  define s where "s = shift_of X"
  have X0: "0 \<le> X" by (simp add: X_def)
  have "s \<le> denorm"
  proof (rule ccontr)
    assume "\<not> s \<le> denorm"
    then have s: "denorm + 1 \<le> s" by simp
    then have "0 < shift_of X" by (simp add: s_def)
    from shift_of_lower [OF this] have "(2::real) ^ (s + 52) \<le> X" by (simp add: s_def)
    moreover have "(2::real) ^ (denorm + 1 + 52) \<le> 2 ^ (s + 52)"
      using s by (intro power_increasing) auto
    moreover have "real n < 2 ^ 53" using assms by (metis of_nat_less_iff of_nat_numeral of_nat_power)
    then have "X < 2 ^ 53 * 2 ^ denorm" unfolding X_def by (intro mult_strict_right_mono) auto
    then have "X < 2 ^ (denorm + 1 + 52)" by (simp add: power_add)
    ultimately show False by linarith
  qed
  then obtain t where t: "denorm = s + t" using le_Suc_ex by blast
  have "X / 2 ^ s = real n * 2 ^ t" unfolding X_def t by (simp add: power_add)
  also have "\<dots> = of_int (int (n * 2 ^ t))" by simp
  finally have "round_even (X / 2 ^ s) = int (n * 2 ^ t)" by (simp only: round_even_int)
  then have "double_of (real n) = real (n * 2 ^ t) * 2 ^ s / 2 ^ denorm"
    unfolding double_of_alt X_def [symmetric] s_def [symmetric] by simp
  also have "\<dots> = real n" by (simp add: t power_add)
  finally show ?thesis .
qed

lemma double_of_nonneg: "0 \<le> x \<Longrightarrow> 0 \<le> double_of x"
  using double_of_mono [of 0 x] double_of_nat [of 0] by simp


lemma shift_of_eq:
  assumes "2 ^ (s + 52) \<le> X" "X < 2 ^ (s + 53)"
  shows "shift_of X = s"
proof (rule ccontr)
  assume ne: "shift_of X \<noteq> s"
  have X0: "0 \<le> X" using assms(1) by (meson order_trans zero_le_numeral zero_le_power)
  show False
  proof (cases "shift_of X < s")
    case True
    then have "(2::real) ^ (shift_of X + 53) \<le> 2 ^ (s + 52)"
      by (intro power_increasing) auto
    with shift_of_upper [OF X0] assms(1) show False by linarith
  next
    case False
    with ne have lt: "s < shift_of X" by simp
    then have "0 < shift_of X" by simp
    from shift_of_lower [OF this] have "2 ^ (shift_of X + 52) \<le> X" .
    moreover have "(2::real) ^ (s + 53) \<le> 2 ^ (shift_of X + 52)"
      using lt by (intro power_increasing) auto
    ultimately show False using assms(2) by linarith
  qed
qed

lemma double_of_eval:
  assumes "2 ^ (s + 52) \<le> x * 2 ^ denorm" "x * 2 ^ denorm < 2 ^ (s + 53)"
  shows "double_of x = of_int (round_even (x * 2 ^ denorm / 2 ^ s)) * 2 ^ s / 2 ^ denorm"
  unfolding double_of_alt shift_of_eq [OF assms] ..

lemma double_of_dyadic:
  assumes "n < 2 ^ 53" "k \<le> denorm"
  shows "double_of (real n / 2 ^ k) = real n / 2 ^ k"
proof -
  obtain j where j: "denorm = k + j" using assms(2) le_Suc_ex by blast
  define X where "X = real n / 2 ^ k * 2 ^ denorm"
  define s where "s = shift_of X"
  have Xn: "X = real n * 2 ^ j" unfolding X_def j by (simp add: power_add)
  have "s \<le> j"
  proof (rule ccontr)
    assume "\<not> s \<le> j"
    then have s: "j + 1 \<le> s" by simp
    then have "0 < shift_of X" by (simp add: s_def)
    from shift_of_lower [OF this] have "(2::real) ^ (s + 52) \<le> X" by (simp add: s_def)
    moreover have "(2::real) ^ (j + 1 + 52) \<le> 2 ^ (s + 52)"
      using s by (intro power_increasing) auto
    moreover have "real n < 2 ^ 53" using assms(1) by (metis of_nat_less_iff of_nat_numeral of_nat_power)
    then have "X < 2 ^ 53 * 2 ^ j" unfolding Xn by (intro mult_strict_right_mono) auto
    then have "X < 2 ^ (j + 1 + 52)" by (simp add: power_add)
    ultimately show False by linarith
  qed
  then obtain t where t: "j = s + t" using le_Suc_ex by blast
  have "X / 2 ^ s = real n * 2 ^ t" unfolding Xn t by (simp add: power_add)
  also have "\<dots> = of_int (int (n * 2 ^ t))" by simp
  finally have "round_even (X / 2 ^ s) = int (n * 2 ^ t)" by (simp only: round_even_int)
  then have "double_of (real n / 2 ^ k) = real (n * 2 ^ t) * 2 ^ s / 2 ^ denorm"
    unfolding double_of_alt X_def [symmetric] s_def [symmetric] by simp
  also have "\<dots> = real n / 2 ^ k" by (simp add: j t power_add)
  finally show ?thesis .
qed

lemma max_slots_less: "max_slots + 2 < 2 ^ 53"
  by (simp add: max_slots_def)

lemma double_of_zero [simp]: "double_of 0 = 0"
  using double_of_nat [of 0] by simp

lemma double_of_one [simp]: "double_of 1 = 1"
  using double_of_nat [of 1] by simp

lemma double_of_numeral:
  "(numeral w :: nat) < 2 ^ 53 \<Longrightarrow> double_of (numeral w) = numeral w"
  using double_of_nat [of "numeral w"] by simp

lemma to_long_Some: "to_long r = Some c \<Longrightarrow> 0 \<le> r \<and> c = nat \<lfloor>r\<rfloor>"
  by (auto simp add: to_long_def split: if_splits)

lemma grown_gt:
  assumes lf: "0 < lf" and cap: "cap < 2 ^ 53" and g: "grown cap lf = Some c"
    and c: "c + 1 < 2 ^ 53"
  shows "real cap / lf < real c"
proof (rule ccontr)
  assume "\<not> real cap / lf < real c"
  then have le: "real c \<le> real cap / lf" by simp
  have c': "c < 2 ^ 53" using c by simp
  define q where "q = double_of (real cap / lf)"
  define r where "r = double_of (q + 1)"
  have r: "to_long r = Some c"
    using g by (simp add: grown_def q_def r_def double_of_nat [OF cap])
  have "double_of (real c) \<le> q" unfolding q_def using le by (intro double_of_mono) auto
  then have "real c \<le> q" by (simp add: double_of_nat [OF c'])
  then have "real (c + 1) \<le> q + 1" by simp
  then have "double_of (real (c + 1)) \<le> r" unfolding r_def by (intro double_of_mono) auto
  then have "real (c + 1) \<le> r" by (simp only: double_of_nat [OF c])
  then have "int (c + 1) \<le> \<lfloor>r\<rfloor>" by (simp add: le_floor_iff)
  moreover have "c = nat \<lfloor>r\<rfloor>" using to_long_Some [OF r] by simp
  ultimately show False by linarith
qed

lemma grown_pos:
  assumes lf: "0 < lf" and g: "grown cap lf = Some c"
  shows "1 \<le> c"
proof -
  define q where "q = double_of (double_of (real cap) / lf)"
  define r where "r = double_of (q + 1)"
  have r: "to_long r = Some c" using g by (simp add: grown_def q_def r_def)
  have "0 \<le> double_of (real cap)" by (rule double_of_nonneg) simp
  then have "0 \<le> double_of (real cap) / lf" using lf by simp
  then have "0 \<le> q" unfolding q_def by (rule double_of_nonneg)
  then have "double_of (real (1::nat)) \<le> r" unfolding r_def by (intro double_of_mono) auto
  then have "1 \<le> r" by simp
  then have "1 \<le> \<lfloor>r\<rfloor>" by (simp add: le_floor_iff)
  moreover have "c = nat \<lfloor>r\<rfloor>" using to_long_Some [OF r] by simp
  ultimately show ?thesis by linarith
qed

lemma not_over_load:
  assumes lf: "0 < lf" "lf < 1" and cap: "cap < 2 ^ 53" and n: "n < 2 ^ 53"
    and no: "\<not> over_load n cap lf"
  shows "n \<le> cap"
proof -
  have "real cap * lf \<le> real cap" using lf by (simp add: mult_left_le)
  then have "double_of (real cap * lf) \<le> double_of (real cap)"
    using lf by (intro double_of_mono) auto
  moreover have "double_of (real n) \<le> double_of (real cap * lf)"
    using no by (simp add: over_load_def double_of_nat [OF cap])
  ultimately have "real n \<le> real cap" by (simp add: double_of_nat [OF cap] double_of_nat [OF n])
  then show ?thesis by simp
qed

lemma double_of_three_quarters: "double_of 0.75 = 0.75"
  using double_of_dyadic [of 3 2] by (simp add: denorm_def)


lemma over_load_three_quarters:
  assumes "cap < 2 ^ 50" "n < 2 ^ 53"
  shows "over_load n cap 0.75 \<longleftrightarrow> 3 * cap < 4 * n"
proof -
  have cap: "cap < 2 ^ 53" using assms(1) by simp
  have "3 * cap < 2 ^ 53" using assms(1) by simp
  then have "double_of (real (3 * cap) / 2 ^ 2) = real (3 * cap) / 2 ^ 2"
    by (rule double_of_dyadic) (simp add: denorm_def)
  moreover have "real cap * 0.75 = real (3 * cap) / 2 ^ 2" by simp
  ultimately have e: "double_of (real cap * 0.75) = real cap * 0.75" by (simp only:)
  have "over_load n cap 0.75 \<longleftrightarrow> real cap * 0.75 < real n"
    by (simp only: over_load_def double_of_nat [OF cap] double_of_nat [OF assms(2)] e)
  also have "\<dots> \<longleftrightarrow> real (3 * cap) < real (4 * n)" by (simp add: algebra_simps)
  also have "\<dots> \<longleftrightarrow> 3 * cap < 4 * n" by (simp only: of_nat_less_iff)
  finally show ?thesis .
qed

lemma grown_three_quarters:
  assumes "cap < 2 ^ 49"
  shows "grown cap 0.75 = Some (4 * cap div 3 + 1)"
proof -
  define k where "k = 4 * cap div 3"
  define q where "q = double_of (real cap / 0.75)"
  define r where "r = double_of (q + 1)"
  have cap: "cap < 2 ^ 53" using assms by simp
  have k: "k < 2 ^ 50" using assms by (simp add: k_def)
  have k53: "k < 2 ^ 53" "k + 1 < 2 ^ 53" "4 * k + 3 < 2 ^ 53" "4 * k + 7 < 2 ^ 53"
    using k by simp_all
  have d3: "double_of (real (4 * k + 3) / 2 ^ 2) = real (4 * k + 3) / 2 ^ 2"
    by (rule double_of_dyadic [OF k53(3)]) (simp add: denorm_def)
  have d7: "double_of (real (4 * k + 7) / 2 ^ 2) = real (4 * k + 7) / 2 ^ 2"
    by (rule double_of_dyadic [OF k53(4)]) (simp add: denorm_def)
  have "3 * k \<le> 4 * cap" "4 * cap \<le> 3 * k + 2" unfolding k_def by presburger+
  then have "real (3 * k) \<le> real (4 * cap)" "real (4 * cap) \<le> real (3 * k + 2)"
    by (simp_all only: of_nat_le_iff)
  then have lo: "real k \<le> real cap / 0.75" and hi: "real cap / 0.75 \<le> real (4 * k + 3) / 2 ^ 2"
    by simp_all
  have "double_of (real k) \<le> q" unfolding q_def using lo by (intro double_of_mono) auto
  then have qlo: "real k \<le> q" by (simp add: double_of_nat [OF k53(1)])
  have "q \<le> double_of (real (4 * k + 3) / 2 ^ 2)"
    unfolding q_def using hi by (intro double_of_mono) auto
  then have qhi: "q \<le> real (4 * k + 3) / 2 ^ 2"
    by (simp only: d3)
  have "double_of (real (k + 1)) \<le> r" unfolding r_def using qlo by (intro double_of_mono) auto
  then have rlo: "real (k + 1) \<le> r" by (simp only: double_of_nat [OF k53(2)])
  have "0 \<le> q" using qlo by (meson of_nat_0_le_iff order_trans)
  have "q + 1 \<le> real (4 * k + 7) / 2 ^ 2" using qhi by simp
  then have "r \<le> double_of (real (4 * k + 7) / 2 ^ 2)"
    unfolding r_def using \<open>0 \<le> q\<close> by (intro double_of_mono) auto
  then have rhi: "r \<le> real (4 * k + 7) / 2 ^ 2"
    by (simp only: d7)
  have "\<lfloor>r\<rfloor> = int (k + 1)" using rlo rhi by (intro floor_unique) auto
  moreover have "real k < 2 ^ 50" using k by (metis of_nat_less_iff of_nat_numeral of_nat_power)
  then have "r < 2 ^ 63" using rhi by simp
  moreover have "0 \<le> r" using rlo by (meson of_nat_0_le_iff order_trans)
  ultimately have "to_long r = Some (k + 1)" by (simp add: to_long_def)
  then show ?thesis
    by (simp add: grown_def q_def r_def k_def double_of_nat [OF cap])
qed


lemma round_even_below:
  assumes "q < of_int c - 1 / 2"
  shows "round_even q \<le> c - 1"
proof -
  have f: "\<lfloor>q\<rfloor> \<le> c - 1" using assms by linarith
  show ?thesis
  proof (cases "\<lfloor>q\<rfloor> = c - 1")
    case True
    then have "q - of_int \<lfloor>q\<rfloor> < 1 / 2" using assms by simp
    then show ?thesis using True by (simp add: round_even_def Let_def)
  next
    case False
    then have "\<lfloor>q\<rfloor> + 1 \<le> c - 1" using f by linarith
    then show ?thesis using round_even_floor [of q] by linarith
  qed
qed

lemma shift_of_le_denorm:
  assumes "0 \<le> X" "X < 2 ^ 53 * 2 ^ denorm"
  shows "shift_of X \<le> denorm"
proof (rule ccontr)
  assume "\<not> shift_of X \<le> denorm"
  then have s: "denorm + 1 \<le> shift_of X" by simp
  then have "0 < shift_of X" by simp
  from shift_of_lower [OF this] have "(2::real) ^ (shift_of X + 52) \<le> X" .
  moreover have "(2::real) ^ (denorm + 1 + 52) \<le> 2 ^ (shift_of X + 52)"
    using s by (intro power_increasing) auto
  moreover have "X < 2 ^ (denorm + 1 + 52)" using assms(2) by (simp add: power_add)
  ultimately show False by linarith
qed

lemma double_of_below:
  assumes x: "0 \<le> x" "x \<le> real cap * (1 - 1 / 2 ^ 53)" and cap: "1 \<le> cap" "cap < 2 ^ 53"
  shows "double_of x < real cap"
proof -
  define X where "X = x * 2 ^ denorm"
  define s where "s = shift_of X"
  define C where "C = real cap * 2 ^ denorm"
  have rc: "real cap < 2 ^ 53" using cap(2) by (metis of_nat_less_iff of_nat_numeral of_nat_power)
  have rc1: "1 \<le> real cap" using cap(1) by simp
  have X0: "0 \<le> X" using x(1) by (simp add: X_def)
  have "x * 2 ^ denorm \<le> real cap * (1 - 1 / 2 ^ 53) * 2 ^ denorm"
    using x(2) by (intro mult_right_mono) auto
  then have XC: "X \<le> C - real cap * 2 ^ denorm / 2 ^ 53"
    by (simp add: X_def C_def algebra_simps)
  have pos: "0 < real cap * 2 ^ denorm / 2 ^ 53" using rc1 by simp
  have XltC: "X < C" using XC pos by linarith
  have "C < 2 ^ 53 * 2 ^ denorm" unfolding C_def using rc by (intro mult_strict_right_mono) auto
  then have sd: "s \<le> denorm" unfolding s_def using X0 XltC by (intro shift_of_le_denorm) auto
  then obtain t where t: "denorm = s + t" using le_Suc_ex by blast
  have Cs: "C / 2 ^ s = of_int (int (cap * 2 ^ t))" by (simp add: C_def t power_add)
  have small: "(2::real) ^ s < real cap * 2 ^ denorm / 2 ^ 52"
  proof (cases "s = 0")
    case True
    have "(2::real) ^ 53 \<le> 2 ^ denorm" by (rule power_increasing) (simp_all add: denorm_def)
    moreover have "1 * (2::real) ^ denorm \<le> real cap * 2 ^ denorm"
      using rc1 by (intro mult_right_mono) auto
    ultimately have "(2::real) ^ 53 \<le> real cap * 2 ^ denorm" by linarith
    then have "(2::real) ^ 52 < real cap * 2 ^ denorm" by simp
    then have "1 < real cap * 2 ^ denorm / 2 ^ 52" by (simp add: pos_less_divide_eq)
    then show ?thesis using True by simp
  next
    case False
    then have "0 < shift_of X" by (simp add: s_def)
    from shift_of_lower [OF this] have "(2::real) ^ (s + 52) \<le> X" by (simp add: s_def)
    then have "(2::real) ^ s * 2 ^ 52 < C" using XltC by (simp add: power_add)
    then show ?thesis by (simp add: C_def pos_less_divide_eq)
  qed
  define Q where "Q = real cap * 2 ^ denorm / 2 ^ 52"
  have Q2: "real cap * 2 ^ denorm / 2 ^ 53 = Q / 2" by (simp add: Q_def)
  have "2 ^ s / 2 < Q / 2" using small unfolding Q_def [symmetric] by simp
  then have half: "2 ^ s / 2 < real cap * 2 ^ denorm / 2 ^ 53" by (simp only: Q2)
  have "X < C - 2 ^ s / 2" using XC half by linarith
  then have "X / 2 ^ s < (C - 2 ^ s / 2) / 2 ^ s" by (simp add: divide_strict_right_mono)
  also have "\<dots> = C / 2 ^ s - 1 / 2" by (simp add: diff_divide_distrib)
  finally have "X / 2 ^ s < of_int (int (cap * 2 ^ t)) - 1 / 2" unfolding Cs .
  then have "round_even (X / 2 ^ s) \<le> int (cap * 2 ^ t) - 1" by (rule round_even_below)
  then have "real_of_int (round_even (X / 2 ^ s)) \<le> real_of_int (int (cap * 2 ^ t) - 1)"
    by (simp only: of_int_le_iff)
  then have "real_of_int (round_even (X / 2 ^ s)) < real (cap * 2 ^ t)" by simp
  then have "real_of_int (round_even (X / 2 ^ s)) * 2 ^ s < real (cap * 2 ^ t) * 2 ^ s"
    by (intro mult_strict_right_mono) auto
  also have "\<dots> = C" by (simp add: C_def t power_add)
  finally have "real_of_int (round_even (X / 2 ^ s)) * 2 ^ s / 2 ^ denorm < C / 2 ^ denorm"
    by (simp add: divide_strict_right_mono)
  then show ?thesis
    unfolding double_of_alt X_def [symmetric] s_def [symmetric] by (simp add: C_def)
qed

lemma double_less_one:
  assumes "0 < double_of x" "double_of x < 1"
  shows "double_of x \<le> 1 - 1 / 2 ^ 53"
proof -
  define X where "X = x * 2 ^ denorm"
  define s where "s = shift_of X"
  define m where "m = round_even (X / 2 ^ s)"
  define r where "r = denorm - 53"
  have dr: "denorm = 53 + r" by (simp add: r_def denorm_def)
  have d: "double_of x = of_int m * 2 ^ s / 2 ^ denorm"
    unfolding double_of_alt X_def [symmetric] s_def [symmetric] m_def ..
  have m0: "0 < m" using assms(1) unfolding d by (simp add: zero_less_mult_iff zero_less_divide_iff)
  have lt: "real_of_int m * 2 ^ s < 2 ^ denorm" using assms(2) unfolding d by simp
  have X0: "0 \<le> X"
  proof (rule ccontr)
    assume "\<not> 0 \<le> X"
    then have "X / 2 ^ s \<le> of_int 0" by (simp add: divide_le_0_iff)
    then have "m \<le> 0" unfolding m_def by (rule round_even_le)
    then show False using m0 by simp
  qed
  have le: "real_of_int m * 2 ^ s \<le> 2 ^ denorm - 2 ^ denorm / 2 ^ 53"
  proof (cases "r \<le> s")
    case True
    have "(2::real) ^ s \<le> real_of_int m * 2 ^ s" using m0 by simp
    then have "(2::real) ^ s < 2 ^ denorm" using lt by linarith
    then have "s < denorm" by simp
    then obtain t where t: "denorm = s + t" using le_Suc_ex [of s denorm] by auto
    have "real_of_int m * 2 ^ s < 2 ^ t * 2 ^ s" using lt by (simp add: t power_add mult.commute)
    then have "real_of_int m < 2 ^ t" by simp
    then have "real_of_int m < real_of_int (2 ^ t)" by simp
    then have "m < 2 ^ t" by (simp only: of_int_less_iff)
    then have "m \<le> 2 ^ t - 1" by simp
    then have "real_of_int m \<le> real_of_int (2 ^ t - 1)" by (simp only: of_int_le_iff)
    then have "real_of_int m * 2 ^ s \<le> (2 ^ t - 1) * 2 ^ s" by (intro mult_right_mono) auto
    also have "\<dots> = 2 ^ denorm - 2 ^ s" by (simp add: t power_add algebra_simps)
    also have "\<dots> \<le> 2 ^ denorm - 2 ^ r"
      using True by (simp add: power_increasing)
    also have "(2::real) ^ denorm - 2 ^ r = 2 ^ denorm - 2 ^ denorm / 2 ^ 53"
      by (simp add: dr power_add)
    finally show ?thesis .
  next
    case False
    then have s: "s + 1 \<le> r" by simp
    from shift_of_upper [OF X0] have "X / 2 ^ s \<le> (2::real) ^ 53"
      by (simp add: s_def power_add pos_divide_le_eq mult.commute)
    then have "X / 2 ^ s \<le> of_int (2 ^ 53)" by simp
    then have "m \<le> 2 ^ 53" unfolding m_def by (rule round_even_le)
    then have "real_of_int m \<le> real_of_int (2 ^ 53)" by (simp only: of_int_le_iff)
    then have "real_of_int m * 2 ^ s \<le> 2 ^ 53 * 2 ^ s" by (intro mult_right_mono) auto
    also have "\<dots> = 2 ^ 52 * 2 ^ (s + 1)" by simp
    also have "\<dots> \<le> 2 ^ 52 * 2 ^ r" using s by (intro mult_left_mono power_increasing) auto
    also have "\<dots> \<le> 2 ^ denorm - 2 ^ denorm / 2 ^ 53" by (simp add: dr power_add)
    finally show ?thesis .
  qed
  have "real_of_int m * 2 ^ s / 2 ^ denorm \<le> (2 ^ denorm - 2 ^ denorm / 2 ^ 53) / 2 ^ denorm"
    using le by (rule divide_right_mono) simp
  then have "double_of x \<le> (2 ^ denorm - 2 ^ denorm / 2 ^ 53) / 2 ^ denorm"
    unfolding d .
  also have "\<dots> = 1 - 1 / 2 ^ 53" by (simp add: diff_divide_distrib)
  finally show ?thesis .
qed

lemma not_over_load_strict:
  assumes lf: "0 < lf" "lf \<le> 1 - 1 / 2 ^ 53" and cap: "1 \<le> cap" "cap < 2 ^ 53"
    and n: "n < 2 ^ 53" and no: "\<not> over_load n cap lf"
  shows "n < cap"
proof -
  have "real cap * lf \<le> real cap * (1 - 1 / 2 ^ 53)" using lf by (intro mult_left_mono) auto
  then have "double_of (real cap * lf) < real cap"
    using lf cap by (intro double_of_below) auto
  moreover have "double_of (real n) \<le> double_of (real cap * lf)"
    using no by (simp add: over_load_def double_of_nat [OF cap(2)])
  ultimately have "real n < real cap" by (simp add: double_of_nat [OF n])
  then show ?thesis by simp
qed

section \<open>Probing\<close>

lemma probe_steps:
  assumes "i < cap" "\<not> busy ((i + j) mod cap)" "\<forall>j'<j. busy ((i + j') mod cap)"
  shows "probe busy cap i d = Some ((i + j) mod cap, d + j)"
  using assms
proof (induction j arbitrary: i d)
  case 0
  then show ?case by (subst probe.simps) simp
next
  case (Suc j)
  from Suc.prems(3) have b: "busy i" using Suc.prems(1) by (metis add.right_neutral mod_less zero_less_Suc)
  have c: "cap > 0" using Suc.prems(1) by simp
  let ?i = "Suc i mod cap"
  have e: "\<And>n. (?i + n) mod cap = Suc (i + n) mod cap"
    by (metis add_Suc mod_add_left_eq)
  have "probe busy cap ?i (d + 1) = Some ((?i + j) mod cap, d + 1 + j)"
  proof (rule Suc.IH)
    show "?i < cap" using c by simp
    show "\<not> busy ((?i + j) mod cap)" using Suc.prems(2) by (simp add: e)
    show "\<forall>j'<j. busy ((?i + j') mod cap)" using Suc.prems(3) by (auto simp add: e)
  qed
  then show ?case using b by (subst probe.simps) (simp add: e)
qed

lemma first_free:
  fixes busy :: "nat \<Rightarrow> bool" and cap s i :: nat
  assumes "s < cap" "\<not> busy s" "i < cap"
  shows "\<exists>j<cap. \<not> busy ((i + j) mod cap) \<and> (\<forall>j'<j. busy ((i + j') mod cap))"
proof -
  let ?P = "\<lambda>j. \<not> busy ((i + j) mod cap)"
  let ?j0 = "(s + cap - i) mod cap"
  have "(i + ?j0) mod cap = (i + (s + cap - i)) mod cap" by (simp add: mod_add_right_eq)
  also have "\<dots> = (s + cap) mod cap" using assms(3) by simp
  also have "\<dots> = s" using assms(1) by simp
  finally have P0: "?P ?j0" using assms by simp
  define j where "j = (LEAST j. ?P j)"
  have "?P j" unfolding j_def using P0 by (rule LeastI)
  moreover have "j \<le> ?j0" unfolding j_def using P0 by (rule Least_le)
  moreover have "?j0 < cap" using assms(1) by simp
  moreover have "\<forall>j'<j. busy ((i + j') mod cap)" unfolding j_def using not_less_Least by blast
  ultimately show ?thesis by (intro exI[of _ j]) simp
qed

lemma disp_offset:
  assumes "j < cap"
  shows "disp cap hv ((ideal cap hv + j) mod cap) = j"
proof -
  have c: "cap > 0" using assms by simp
  have a: "ideal cap hv < cap" using c by (simp add: ideal_def)
  show ?thesis
  proof (cases "ideal cap hv + j < cap")
    case True
    then show ?thesis using assms a by (simp add: disp_def)
  next
    case False
    then have "(ideal cap hv + j) mod cap = ideal cap hv + j - cap"
      using a assms by (simp add: mod_if)
    then show ?thesis using assms a False by (simp add: disp_def)
  qed
qed

lemma offset_disp:
  assumes "i < cap"
  shows "(ideal cap hv + disp cap hv i) mod cap = i" "disp cap hv i < cap"
proof -
  have c: "cap > 0" using assms by simp
  have a: "ideal cap hv < cap" using c by (simp add: ideal_def)
  show "disp cap hv i < cap" using c by (simp add: disp_def)
  have "(ideal cap hv + disp cap hv i) mod cap = (ideal cap hv + (i + cap - ideal cap hv)) mod cap"
    by (simp add: disp_def mod_add_right_eq)
  also have "\<dots> = (i + cap) mod cap" using a by simp
  also have "\<dots> = i" using assms by simp
  finally show "(ideal cap hv + disp cap hv i) mod cap = i" .
qed

lemma ideal_less: "0 < cap \<Longrightarrow> ideal cap hv < cap"
  by (simp add: ideal_def)

lemma mset_filter_update_free:
  assumes "i < length xs" "\<not> lv (xs ! i)" "lv it"
  shows "mset (filter lv (xs[i := it])) = add_mset it (mset (filter lv xs))"
proof -
  have "mset (xs[i := it]) = add_mset it (mset xs - {#xs ! i#})"
    using assms(1) by (rule mset_update)
  then have "filter_mset lv (mset (xs[i := it])) = add_mset it (filter_mset lv (mset xs - {#xs ! i#}))"
    using assms(3) by simp
  also have "filter_mset lv (mset xs - {#xs ! i#}) = filter_mset lv (mset xs)"
    using assms(2) by (simp add: filter_diff_mset)
  finally show ?thesis by simp
qed

lemma exists_free:
  assumes "length (filter lv xs) < length xs"
  shows "\<exists>s<length xs. \<not> lv (xs ! s)"
proof (rule ccontr)
  assume "\<not> ?thesis"
  then have "\<forall>x\<in>set xs. lv x" by (auto simp: in_set_conv_nth)
  then have "filter lv xs = xs" by (simp add: filter_id_conv)
  with assms show False by simp
qed

lemma place_step:
  assumes "\<exists>s<cap. \<not> busy s"
  obtains i d where "probe busy cap (ideal cap hv) 0 = Some (i, d)"
    "i < cap" "\<not> busy i" "d < cap" "i = (ideal cap hv + d) mod cap"
    "\<forall>j<d. busy ((ideal cap hv + j) mod cap)" "disp cap hv i = d"
proof -
  from assms obtain s where s: "s < cap" "\<not> busy s" by blast
  then have c: "0 < cap" by simp
  have a: "ideal cap hv < cap" using c by (rule ideal_less)
  from first_free[of s cap busy "ideal cap hv"] s a
  obtain d where d: "d < cap" "\<not> busy ((ideal cap hv + d) mod cap)"
    "\<forall>j'<d. busy ((ideal cap hv + j') mod cap)" by blast
  have "probe busy cap (ideal cap hv) 0 = Some ((ideal cap hv + d) mod cap, 0 + d)"
    using a d(2,3) by (rule probe_steps)
  then show ?thesis using that[of "(ideal cap hv + d) mod cap" d] d c disp_offset[OF d(1), of hv]
    by simp
qed

lemma disp_ok_place:
  assumes dk: "disp_ok lv hs new md" and i: "i < length new" and d: "disp (length new) (hs it) i = d"
  shows "disp_ok lv hs (new[i := it]) (max md d)"
  unfolding disp_ok_def
proof (intro allI impI)
  fix s assume s: "s < length (new[i := it])" and l: "lv (new[i := it] ! s)"
  show "disp (length (new[i := it])) (hs (new[i := it] ! s)) s \<le> max md d"
  proof (cases "s = i")
    case True
    then show ?thesis using i d by simp
  next
    case False
    then have "new[i := it] ! s = new ! s" by simp
    then show ?thesis using dk s l unfolding disp_ok_def by (simp add: le_max_iff_disj)
  qed
qed

lemma nogap_place:
  assumes ng: "nogap lv hs new" and i: "i < length new" and it: "lv it"
    and d: "disp (length new) (hs it) i = d"
    and pre: "\<forall>j<d. lv (new ! ((ideal (length new) (hs it) + j) mod length new))"
  shows "nogap lv hs (new[i := it])"
  unfolding nogap_def
proof (intro allI impI)
  fix s j
  assume s: "s < length (new[i := it])" and l: "lv (new[i := it] ! s)"
    and j: "j < disp (length (new[i := it])) (hs (new[i := it] ! s)) s"
  let ?n = "length new"
  let ?t = "(ideal ?n (hs (new[i := it] ! s)) + j) mod ?n"
  have "0 < ?n" using i by (cases new) simp_all
  then have t: "?t < ?n" by simp
  have "lv (new ! ?t) \<or> ?t = i"
  proof (cases "s = i")
    case True
    then show ?thesis using pre j d i by simp
  next
    case False
    then have "new[i := it] ! s = new ! s" by simp
    then show ?thesis using ng s l j unfolding nogap_def by simp
  qed
  then show "lv (new[i := it] ! ((ideal (length (new[i := it])) (hs (new[i := it] ! s)) + j) mod
       length (new[i := it])))"
    using it i t by (auto simp: nth_list_update)
qed

lemma rehash_loop_ok:
  assumes "length new = cap" "length (filter lv new) + length (filter lv rest) < cap"
  shows "\<exists>new' md'. rehash_loop lv hs rest cap new md = Some (new', md') \<and> length new' = cap \<and>
           mset (filter lv new') = mset (filter lv new) + mset (filter lv rest) \<and> md \<le> md' \<and>
           (disp_ok lv hs new md \<longrightarrow> disp_ok lv hs new' md') \<and>
           (nogap lv hs new \<longrightarrow> nogap lv hs new')"
  using assms
proof (induction rest arbitrary: new md)
  case Nil
  then show ?case by simp
next
  case (Cons it rest)
  show ?case
  proof (cases "lv it")
    case False
    then show ?thesis using Cons.IH[of new md] Cons.prems by simp
  next
    case True
    have "length (filter lv new) < length new" using Cons.prems True by simp
    then have "\<exists>s<cap. \<not> lv (new ! s)" using exists_free[of lv new] Cons.prems(1) by simp
    from place_step[OF this, of "hs it"] obtain i d where
      p: "probe (\<lambda>i. lv (new ! i)) cap (ideal cap (hs it)) 0 = Some (i, d)"
      and i: "i < cap" "\<not> lv (new ! i)" and d: "d < cap" "disp cap (hs it) i = d"
      and pre: "\<forall>j<d. lv (new ! ((ideal cap (hs it) + j) mod cap))" by blast
    let ?new = "new[i := it]"
    have ms: "mset (filter lv ?new) = add_mset it (mset (filter lv new))"
      using i True Cons.prems(1) by (intro mset_filter_update_free) simp_all
    then have "size (mset (filter lv ?new)) = Suc (size (mset (filter lv new)))" by simp
    then have len: "length (filter lv ?new) = Suc (length (filter lv new))"
      by (simp only: size_mset)
    have "\<exists>new' md'. rehash_loop lv hs rest cap ?new (max md d) = Some (new', md') \<and> length new' = cap \<and>
           mset (filter lv new') = mset (filter lv ?new) + mset (filter lv rest) \<and> max md d \<le> md' \<and>
           (disp_ok lv hs ?new (max md d) \<longrightarrow> disp_ok lv hs new' md') \<and>
           (nogap lv hs ?new \<longrightarrow> nogap lv hs new')"
      using Cons.prems True len by (intro Cons.IH) simp_all
    then obtain new' md' where r: "rehash_loop lv hs rest cap ?new (max md d) = Some (new', md')"
      "length new' = cap" "mset (filter lv new') = mset (filter lv ?new) + mset (filter lv rest)"
      "max md d \<le> md'" "disp_ok lv hs ?new (max md d) \<longrightarrow> disp_ok lv hs new' md'"
      "nogap lv hs ?new \<longrightarrow> nogap lv hs new'" by blast
    have "disp_ok lv hs new md \<longrightarrow> disp_ok lv hs new' md'"
      using r(5) disp_ok_place[of lv hs new md i it d] i d Cons.prems(1) by simp
    moreover have "nogap lv hs new \<longrightarrow> nogap lv hs new'"
      using r(6) nogap_place[of lv hs new i it d] i d pre True Cons.prems(1) by simp
    ultimately show ?thesis using r p True ms by simp
  qed
qed

section \<open>Growth\<close>

lemma hmap_insert_split:
  "hmap_insert h0 k dat keep m =
     (case insert_grow h0 of Inl e \<Rightarrow> Inl e | Inr h \<Rightarrow> insert_place h k dat keep m)"
proof -
  define A where "A = (if item h0 = None then x__hmap_create_items h0 else Inr h0)"
  define B where "B = (\<lambda>h1. if over_load (size_h h1 + 1) (capacity h1) (load_factor h1)
                             then x__hmap_resize_items h1 else Inr h1)"
  have i: "hmap_insert h0 k dat keep m =
      (case A of Inl e \<Rightarrow> Inl e
       | Inr h1 \<Rightarrow> (case B h1 of Inl e \<Rightarrow> Inl e | Inr h \<Rightarrow> insert_place h k dat keep m))"
    unfolding hmap_insert_def insert_place_def insert_busy_def A_def B_def Let_def
    apply (rule sum.case_cong, rule refl, rule refl)
    apply (rule sum.case_cong, rule refl, rule refl)
    by (auto split: option.splits)
  have g: "insert_grow h0 = (case A of Inl e \<Rightarrow> Inl e | Inr h1 \<Rightarrow> B h1)"
    unfolding insert_grow_def A_def B_def ..
  show ?thesis unfolding i g by (cases A) simp_all
qed

lemma item_eta: "\<lparr>key = key it, data = data it, hash = hash it\<rparr> = (it :: hmap_item)"
  by simp
lemma resize_loop_eq: "resize_loop xs cap new md = rehash_loop live hash xs cap new md"
proof (induction xs arbitrary: new md)
  case Nil show ?case by simp
next
  case (Cons it xs)
  have m: "\<And>d. (if md < d then d else md) = max md d" by (simp add: max_def)
  show ?case by (simp add: Cons.IH live_def ideal_def m item_eta split: option.splits)
qed

section \<open>The invariant\<close>

lemma hinv_basic:
  assumes "hinv h m"
  shows "0 < load_factor h" "load_factor h < 1" "1 \<le> capacity h"
    "size_h h \<le> capacity h" "\<exists>khash. key_hash h = Some khash"
proof -
  show "0 < load_factor h" "load_factor h < 1" "1 \<le> capacity h" "\<exists>khash. key_hash h = Some khash"
    using assms by (auto simp: hinv_def split: option.splits)
  show "size_h h \<le> capacity h"
  proof (cases "item h")
    case None
    then show ?thesis using assms by (auto simp: hinv_def split: option.splits)
  next
    case (Some xs)
    then have "length xs = capacity h" "size_h h = length (filter live xs)"
      using assms by (auto simp: hinv_def split: option.splits)
    then show ?thesis using length_filter_le [of live xs] by simp
  qed
qed

lemma hinv_None: "hinv h m \<Longrightarrow> item h = None \<Longrightarrow> size_h h = 0"
  by (auto simp: hinv_def split: option.splits)

lemma hinv_Some:
  assumes "hinv h m" "item h = Some xs" "key_hash h = Some khash"
  shows "length xs = capacity h" "size_h h = length (filter live xs)"
    "slots_inv khash m xs (max_dist h)" "capacity h \<le> max_slots"
  using assms by (auto simp: hinv_def split: option.splits)

lemma hinv_slots: "hinv h m \<Longrightarrow> item h = Some xs \<Longrightarrow> capacity h \<le> max_slots"
  by (auto simp: hinv_def split: option.splits)

lemma hinvI:
  assumes "0 < load_factor h" "load_factor h < 1" "1 \<le> capacity h"
    "capacity h \<le> max_slots" "key_hash h = Some khash"
    "item h = Some xs" "length xs = capacity h" "size_h h = length (filter live xs)"
    "slots_inv khash m xs (max_dist h)"
  shows "hinv h m"
  using assms by (simp add: hinv_def)

lemma hinvI_None:
  assumes "0 < load_factor h" "load_factor h < 1" "1 \<le> capacity h"
    "key_hash h = Some khash" "item h = None" "size_h h = 0"
  shows "hinv h m"
  using assms by (simp add: hinv_def)

lemma zero_item_dead [simp]: "\<not> live zero_item"
  by (simp add: live_def zero_item_def)

lemma filter_live_replicate [simp]: "filter live (replicate n zero_item) = []"
  by (induction n) simp_all

lemma disp_ok_replicate: "disp_ok live hash (replicate n zero_item) md"
  by (simp add: disp_ok_def)

lemma nogap_replicate: "nogap live hash (replicate n zero_item)"
  by (simp add: nogap_def)

lemma slots_small: "c \<le> max_slots \<Longrightarrow> c < 2 ^ 53 \<and> c + 1 < 2 ^ 53"
  using max_slots_less by simp

lemma grown_more:
  assumes lf: "0 < lf" "lf < 1" and cap: "cap \<le> max_slots"
    and g: "grown cap lf = Some cap'" and c: "cap' \<le> max_slots"
  shows "cap < cap'" and "real cap < real cap' * lf"
proof -
  have lt: "real cap / lf < real cap'"
    using lf(1) _ g by (rule grown_gt) (use slots_small [OF cap] slots_small [OF c] in simp_all)
  then show "real cap < real cap' * lf" using lf(1) by (simp add: pos_divide_less_eq)
  have "real cap * lf \<le> real cap" using lf by (simp add: mult_left_le)
  then have "real cap \<le> real cap / lf" using lf(1) by (simp add: pos_le_divide_eq)
  then have "real cap < real cap'" using lt by linarith
  then show "cap < cap'" by simp
qed

lemma resize_items_ok:
  assumes lf: "0 < load_factor h" "load_factor h < 1" and xs: "item h = Some xs"
    and len: "length xs = capacity h" and cap: "capacity h \<le> max_slots"
    and g: "grown (capacity h) (load_factor h) = Some cap'" and c: "cap' \<le> max_slots"
  shows "\<exists>new md. x__hmap_resize_items h =
            Inr (h\<lparr>item := Some new, capacity := cap', max_dist := md\<rparr>) \<and>
          length new = cap' \<and>
          mset (filter live new) = mset (filter live xs) \<and>
          disp_ok live hash new md \<and> nogap live hash new"
proof -
  have gt: "capacity h < cap'" using lf cap g c by (rule grown_more(1))
  have "length (filter live xs) \<le> length xs" by simp
  then have room: "length (filter live (replicate cap' zero_item)) + length (filter live xs) < cap'"
    using len gt by simp
  have "length (replicate cap' zero_item) = cap'" by simp
  from rehash_loop_ok[OF this room, of hash 0]
  obtain new md where r: "rehash_loop live hash xs cap' (replicate cap' zero_item) 0 = Some (new, md)"
    "length new = cap'" "mset (filter live new) = mset (filter live xs)"
    "disp_ok live hash new md" "nogap live hash new"
    using disp_ok_replicate nogap_replicate by auto
  have "x__hmap_resize_items h = Inr (h\<lparr>item := Some new, capacity := cap', max_dist := md\<rparr>)"
    unfolding x__hmap_resize_items_def
    using lf xs r(1) g c by (simp add: resize_loop_eq)
  then show ?thesis using r by blast
qed

lemma slots_inv_mset:
  assumes "slots_inv khash m xs md" "mset (filter live new) = mset (filter live xs)"
    "disp_ok live hash new md'"
  shows "slots_inv khash m new md'"
proof -
  have "mset (map key (filter live new)) = mset (map key (filter live xs))"
    using assms(2) by (metis mset_map)
  then have d: "distinct (map key (filter live new))"
    using assms(1) by (metis mset_eq_imp_distinct_iff slots_inv_def)
  have "set (filter live new) = set (filter live xs)" using assms(2) by (rule mset_eq_setD)
  then have "\<forall>it\<in>set new. live it \<longrightarrow> item_ok khash m it"
    using assms(1) unfolding slots_inv_def by auto
  then show ?thesis using d assms(3) by (simp add: slots_inv_def)
qed

lemma length_filter_mset:
  "mset (filter P xs) = mset (filter P ys) \<Longrightarrow> length (filter P xs) = length (filter P ys)"
  by (metis size_mset)

lemma hinv_create_items:
  assumes "hinv h m" "item h = None" "capacity h \<le> max_slots"
  shows "x__hmap_create_items h = Inr (h\<lparr>item := Some (replicate (capacity h) zero_item)\<rparr>)"
    and "hinv (h\<lparr>item := Some (replicate (capacity h) zero_item)\<rparr>) m"
proof -
  show "x__hmap_create_items h = Inr (h\<lparr>item := Some (replicate (capacity h) zero_item)\<rparr>)"
    using assms(3) by (simp add: x__hmap_create_items_def)
  from hinv_basic(5)[OF assms(1)] obtain khash where k: "key_hash h = Some khash" by blast
  show "hinv (h\<lparr>item := Some (replicate (capacity h) zero_item)\<rparr>) m"
  proof (rule hinvI[where khash = khash and xs = "replicate (capacity h) zero_item"])
    show "slots_inv khash m (replicate (capacity h) zero_item)
            (max_dist (h\<lparr>item := Some (replicate (capacity h) zero_item)\<rparr>))"
      by (simp add: slots_inv_def disp_ok_replicate)
  qed (use assms hinv_basic[OF assms(1)] hinv_None[OF assms(1,2)] k in simp_all)
qed

lemma resize_hinv:
  assumes inv: "hinv h m" and ys: "item h = Some ys"
    and g: "grown (capacity h) (load_factor h) = Some cap'" and c: "cap' \<le> max_slots"
  shows "\<exists>h' xs. x__hmap_resize_items h = Inr h' \<and> hinv h' m \<and> item h' = Some xs \<and>
           capacity h' = cap' \<and>
           capacity h < capacity h' \<and> nogap live hash xs \<and>
           mset (filter live xs) = mset (filter live ys) \<and>
           h' = h\<lparr>item := Some xs, capacity := capacity h', max_dist := max_dist h'\<rparr> \<and>
           size_h h' < capacity h'"
proof -
  from hinv_basic(5)[OF inv] obtain khash where k: "key_hash h = Some khash" by blast
  note b = hinv_basic[OF inv] and s = hinv_Some[OF inv ys k]
  from resize_items_ok[OF b(1,2) ys s(1) s(4) g c] obtain new md where
    r: "x__hmap_resize_items h = Inr (h\<lparr>item := Some new, capacity := cap', max_dist := md\<rparr>)"
      "length new = cap'" "mset (filter live new) = mset (filter live ys)"
      "disp_ok live hash new md" "nogap live hash new"
    by blast
  let ?h = "h\<lparr>item := Some new, capacity := cap', max_dist := md\<rparr>"
  have gt: "capacity h < cap'" using b(1,2) s(4) g c by (rule grown_more(1))
  have room: "size_h ?h < capacity ?h" using b(4) gt by simp
  have "hinv ?h m"
  proof (rule hinvI[where khash = khash and xs = new])
    show "size_h ?h = length (filter live new)" using s(2) length_filter_mset[OF r(3)] by simp
    show "slots_inv khash m new (max_dist ?h)" using slots_inv_mset[OF s(3) r(3) r(4)] by simp
    show "1 \<le> capacity ?h" using gt by simp
  qed (use b k r(2) c in simp_all)
  then show ?thesis using r room gt
    by (intro exI[of _ ?h] exI[of _ new]) simp
qed

lemma resize_fault:
  assumes inv: "hinv h m" and ys: "item h = Some ys" and f: "x__hmap_resize_items h = Inl e"
  shows "e \<noteq> Diverges"
proof (cases "grown (capacity h) (load_factor h)")
  case None
  then show ?thesis using f by (auto simp: x__hmap_resize_items_def split: if_splits)
next
  case (Some cap')
  show ?thesis
  proof (cases "cap' \<le> max_slots")
    case True
    from resize_hinv[OF inv ys Some True] show ?thesis using f by auto
  next
    case False
    then show ?thesis using f Some by (auto simp: x__hmap_resize_items_def split: if_splits)
  qed
qed

lemma resize_Inr:
  assumes inv: "hinv h m" and ys: "item h = Some ys" and r: "x__hmap_resize_items h = Inr h'"
  shows "\<exists>xs. hinv h' m \<and> item h' = Some xs \<and>
           grown (capacity h) (load_factor h) = Some (capacity h') \<and>
           capacity h < capacity h' \<and> nogap live hash xs \<and>
           mset (filter live xs) = mset (filter live ys) \<and>
           h' = h\<lparr>item := Some xs, capacity := capacity h', max_dist := max_dist h'\<rparr> \<and>
           size_h h' < capacity h'"
proof -
  from r obtain cap' where g: "grown (capacity h) (load_factor h) = Some cap'"
    and c: "cap' \<le> max_slots"
    by (auto simp: x__hmap_resize_items_def split: if_splits option.splits)
  from resize_hinv[OF inv ys g c] show ?thesis using r g by auto
qed

lemma no_growth_room:
  assumes inv: "hinv h m" and ys: "item h = Some ys" and n: "\<not> grows h"
  shows "size_h h < capacity h"
proof -
  note b = hinv_basic[OF inv]
  have c: "capacity h \<le> max_slots" using inv ys by (rule hinv_slots)
  have "size_h h + 1 \<le> max_slots + 1" using b(4) c by simp
  then have s: "size_h h + 1 < 2 ^ 53" using max_slots_less by simp
  have "size_h h + 1 \<le> capacity h"
    using b(1,2) _ s by (rule not_over_load) (use slots_small[OF c] n in \<open>simp_all add: grows_def\<close>)
  then show ?thesis by simp
qed

lemma grow_step_ok:
  assumes inv: "hinv h1 m" and ys: "item h1 = Some ys"
  shows "(\<exists>e. (if grows h1 then x__hmap_resize_items h1 else Inr h1) = Inl e \<and> e \<noteq> Diverges) \<or>
         (\<exists>h xs. (if grows h1 then x__hmap_resize_items h1 else Inr h1) = Inr h \<and> hinv h m \<and>
           item h = Some xs \<and> size_h h < capacity h \<and>
           mset (filter live xs) = mset (filter live ys) \<and>
           h = h1\<lparr>item := Some xs, capacity := capacity h, max_dist := max_dist h\<rparr> \<and>
           capacity h1 \<le> capacity h \<and>
           (grows h1 \<longrightarrow> grown (capacity h1) (load_factor h1) = Some (capacity h) \<and>
              capacity h1 < capacity h \<and> nogap live hash xs))"
proof (cases "grows h1")
  case False
  then show ?thesis using inv ys no_growth_room[OF inv ys False] by simp
next
  case True
  show ?thesis
  proof (cases "x__hmap_resize_items h1")
    case (Inl e)
    then show ?thesis using True resize_fault[OF inv ys Inl] by simp
  next
    case (Inr h)
    from resize_Inr[OF inv ys Inr] obtain xs where "hinv h m"
      "item h = Some xs" "grown (capacity h1) (load_factor h1) = Some (capacity h)"
      "capacity h1 < capacity h" "nogap live hash xs"
      "mset (filter live xs) = mset (filter live ys)"
      "h = h1\<lparr>item := Some xs, capacity := capacity h, max_dist := max_dist h\<rparr>"
      "size_h h < capacity h" by blast
    then show ?thesis using True Inr by (intro disjI2 exI[of _ h] exI[of _ xs]) simp
  qed
qed

lemma insert_grow_ok:
  assumes inv: "hinv h0 m"
  shows "(\<exists>e. insert_grow h0 = Inl e \<and> e \<noteq> Diverges) \<or>
         (\<exists>h xs. insert_grow h0 = Inr h \<and> hinv h m \<and> item h = Some xs \<and>
           size_h h < capacity h \<and>
           mset (filter live xs) = (case item h0 of None \<Rightarrow> {#} | Some ys \<Rightarrow> mset (filter live ys)) \<and>
           h = h0\<lparr>item := Some xs, capacity := capacity h, max_dist := max_dist h\<rparr> \<and>
           capacity h0 \<le> capacity h)"
proof (cases "item h0")
  case None
  show ?thesis
  proof (cases "capacity h0 \<le> max_slots")
    case False
    then have "insert_grow h0 = Inl Assertion_failed"
      using None by (simp add: insert_grow_def x__hmap_create_items_def)
    then show ?thesis by simp
  next
    case True
    let ?h1 = "h0\<lparr>item := Some (replicate (capacity h0) zero_item)\<rparr>"
    note ci = hinv_create_items[OF inv None True]
    have i1: "item ?h1 = Some (replicate (capacity h0) zero_item)" by simp
    have e: "insert_grow h0 = (if grows ?h1 then x__hmap_resize_items ?h1 else Inr ?h1)"
      using None ci(1) by (simp add: insert_grow_def grows_def)
    from grow_step_ok[OF ci(2) i1]
    show ?thesis
    proof
      assume "\<exists>e. (if grows ?h1 then x__hmap_resize_items ?h1 else Inr ?h1) = Inl e \<and> e \<noteq> Diverges"
      then show ?thesis unfolding e[symmetric] by blast
    next
      assume "\<exists>h xs. (if grows ?h1 then x__hmap_resize_items ?h1 else Inr ?h1) = Inr h \<and> hinv h m \<and>
           item h = Some xs \<and> size_h h < capacity h \<and>
           mset (filter live xs) = mset (filter live (replicate (capacity h0) zero_item)) \<and>
           h = ?h1\<lparr>item := Some xs, capacity := capacity h, max_dist := max_dist h\<rparr> \<and>
           capacity ?h1 \<le> capacity h \<and>
           (grows ?h1 \<longrightarrow> grown (capacity ?h1) (load_factor ?h1) = Some (capacity h) \<and>
              capacity ?h1 < capacity h \<and> nogap live hash xs)"
      then obtain h xs where g: "(if grows ?h1 then x__hmap_resize_items ?h1 else Inr ?h1) = Inr h"
           "hinv h m" "item h = Some xs" "size_h h < capacity h"
           "mset (filter live xs) = mset (filter live (replicate (capacity h0) zero_item))"
           "h = ?h1\<lparr>item := Some xs, capacity := capacity h, max_dist := max_dist h\<rparr>"
           "capacity ?h1 \<le> capacity h" by blast
      have "h = h0\<lparr>item := Some xs, capacity := capacity h, max_dist := max_dist h\<rparr>"
        by (subst g(6)) simp
      moreover have "capacity h0 \<le> capacity h" using g(7) by simp
      moreover have "mset (filter live xs) = {#}" using g(5) by simp
      ultimately show ?thesis using None g(1-4) unfolding e[symmetric]
        by (intro disjI2 exI[of _ h] exI[of _ xs]) simp
    qed
  qed
next
  case (Some ys)
  have e: "insert_grow h0 = (if grows h0 then x__hmap_resize_items h0 else Inr h0)"
    using Some by (simp add: insert_grow_def grows_def)
  from grow_step_ok[OF inv Some]
  show ?thesis
  proof
    assume "\<exists>e. (if grows h0 then x__hmap_resize_items h0 else Inr h0) = Inl e \<and> e \<noteq> Diverges"
    then show ?thesis unfolding e[symmetric] by blast
  next
    assume "\<exists>h xs. (if grows h0 then x__hmap_resize_items h0 else Inr h0) = Inr h \<and> hinv h m \<and>
           item h = Some xs \<and> size_h h < capacity h \<and>
           mset (filter live xs) = mset (filter live ys) \<and>
           h = h0\<lparr>item := Some xs, capacity := capacity h, max_dist := max_dist h\<rparr> \<and>
           capacity h0 \<le> capacity h \<and>
           (grows h0 \<longrightarrow> grown (capacity h0) (load_factor h0) = Some (capacity h) \<and>
              capacity h0 < capacity h \<and> nogap live hash xs)"
    then obtain h xs where g: "(if grows h0 then x__hmap_resize_items h0 else Inr h0) = Inr h"
         "hinv h m" "item h = Some xs" "size_h h < capacity h"
         "mset (filter live xs) = mset (filter live ys)"
         "h = h0\<lparr>item := Some xs, capacity := capacity h, max_dist := max_dist h\<rparr>"
         "capacity h0 \<le> capacity h" by blast
    have "mset (filter live xs) = (case item h0 of None \<Rightarrow> {#} | Some ys \<Rightarrow> mset (filter live ys))"
      using g(5) Some by simp
    then show ?thesis using g(1-4,6,7) unfolding e[symmetric] by blast
  qed
qed

lemma insert_grow_Inr:
  assumes inv: "hinv h0 m" and g: "insert_grow h0 = Inr h"
  shows "\<exists>xs. hinv h m \<and> item h = Some xs \<and> size_h h < capacity h \<and>
           mset (filter live xs) = (case item h0 of None \<Rightarrow> {#} | Some ys \<Rightarrow> mset (filter live ys)) \<and>
           h = h0\<lparr>item := Some xs, capacity := capacity h, max_dist := max_dist h\<rparr> \<and>
           capacity h0 \<le> capacity h"
  using insert_grow_ok[OF inv] g by auto

lemma insert_grow_of_insert:
  assumes inv: "hinv h0 m" and res: "hmap_insert h0 k dat keep m = Inr res"
  shows "\<exists>h xs. insert_grow h0 = Inr h \<and> hinv h m \<and> item h = Some xs \<and>
           size_h h < capacity h \<and>
           mset (filter live xs) = (case item h0 of None \<Rightarrow> {#} | Some ys \<Rightarrow> mset (filter live ys)) \<and>
           h = h0\<lparr>item := Some xs, capacity := capacity h, max_dist := max_dist h\<rparr> \<and>
           capacity h0 \<le> capacity h"
proof (cases "insert_grow h0")
  case (Inl e)
  then show ?thesis using res by (simp add: hmap_insert_split)
next
  case (Inr h)
  from insert_grow_Inr[OF inv Inr] show ?thesis using Inr by blast
qed

section \<open>Insertion keeps the invariant\<close>

lemma insert_busy_live: "insert_busy xs m hv k i \<Longrightarrow> live (xs ! i)"
  by (simp add: insert_busy_def live_def)

lemma insert_probe:
  assumes inv: "hinv h m" and xs: "item h = Some xs"
    and room: "size_h h < capacity h"
  shows "\<exists>i d. probe (insert_busy xs m hv k) (capacity h) (unat hv mod capacity h) 0 = Some (i, d) \<and>
           i < capacity h \<and> \<not> insert_busy xs m hv k i \<and> disp (capacity h) hv i = d \<and>
           (\<forall>j<d. insert_busy xs m hv k ((ideal (capacity h) hv + j) mod capacity h))"
proof -
  from hinv_basic(5)[OF inv] obtain khash where k: "key_hash h = Some khash" by blast
  note s = hinv_Some[OF inv xs k]
  have "length (filter live xs) < length xs" using room s by simp
  from exists_free[OF this] obtain f where "f < capacity h" "\<not> live (xs ! f)" using s(1) by auto
  then have "\<exists>s<capacity h. \<not> insert_busy xs m hv k s" using insert_busy_live by blast
  from place_step[OF this, of hv] show ?thesis unfolding ideal_def by metis
qed

lemma item_create_result:
  assumes "x__hmap_item_create h k dat hv m = Inr (it, m')"
  shows "key it = Suc (brk m)" "hash it = hv" "strs m' = (strs m)(Suc (brk m) \<mapsto> k)"
    "Suc (brk m) \<le> brk m'" "\<forall>a\<le>brk m. blks m' a = blks m a"
    "if dat \<noteq> 0 \<and> data_copy h \<noteq> None
     then data it = Suc (Suc (brk m)) \<and> brk m' = Suc (Suc (brk m)) \<and>
          blks m' = (blks m)(Suc (Suc (brk m)) := the (data_copy h) (the (blks m dat)) (data_size h)) \<and>
          the (data_copy h) (the (blks m dat)) (data_size h) \<noteq> None
     else data it = dat \<and> blks m' = blks m \<and> brk m' = Suc (brk m)"
  using assms
  by (auto simp: x__hmap_item_create_def strdup_def malloc_def Let_def split: if_splits option.splits)

lemma item_create_total:
  assumes "copy_ok h m dat"
  shows "\<exists>it m'. x__hmap_item_create h k dat hv m = Inr (it, m')"
  using assms
  by (auto simp: x__hmap_item_create_def copy_ok_def strdup_def malloc_def Let_def
      split: if_splits option.splits)

lemma item_create_fault:
  assumes "x__hmap_item_create h k dat hv m = Inl e"
  shows "e = Undefined_behaviour \<and> \<not> copy_ok h m dat"
  using assms
  by (auto simp: x__hmap_item_create_def copy_ok_def strdup_def malloc_def Let_def
      split: if_splits option.splits)

lemma item_create_ext:
  assumes "x__hmap_item_create h k dat hv m = Inr (it, m')"
  shows "mem_sub m m'"
  using item_create_result[OF assms] by (auto simp: mem_sub_def)

lemma item_ok_ext: "item_ok khash m it \<Longrightarrow> mem_sub m m' \<Longrightarrow> item_ok khash m' it"
  by (auto simp: item_ok_def mem_sub_def split: option.splits)

lemma slots_inv_new:
  assumes sl: "slots_inv khash m xs md" and i: "i < length xs" "\<not> live (xs ! i)"
    and it: "key it = Suc (brk m)" "hash it = khash k"
    and m': "mem_sub m m'" "strs m' (Suc (brk m)) = Some k" "Suc (brk m) \<le> brk m'"
    and d: "disp (length xs) (hash it) i = d"
  shows "slots_inv khash m' (xs[i := it]) (max md d)"
    and "length (filter live (xs[i := it])) = Suc (length (filter live xs))"
proof -
  have lv: "live it" using it(1) by (simp add: live_def)
  have ms: "mset (filter live (xs[i := it])) = add_mset it (mset (filter live xs))"
    using i lv by (intro mset_filter_update_free) simp_all
  then have "size (mset (filter live (xs[i := it]))) = Suc (size (mset (filter live xs)))" by simp
  then show "length (filter live (xs[i := it])) = Suc (length (filter live xs))"
    by (simp only: size_mset)
  have old: "\<forall>x\<in>set xs. live x \<longrightarrow> item_ok khash m x" using sl by (simp add: slots_inv_def)
  then have "\<forall>a\<in>set (map key (filter live xs)). a \<le> brk m" by (auto simp: item_ok_def)
  then have "key it \<notin> set (map key (filter live xs))" using it(1) by auto
  moreover have "distinct (map key (filter live xs))" using sl by (simp add: slots_inv_def)
  ultimately have "distinct (key it # map key (filter live xs))" by simp
  moreover have "mset (map key (filter live (xs[i := it]))) = mset (key it # map key (filter live xs))"
    using ms by (metis mset.simps(2) mset_map image_mset_add_mset)
  ultimately have dist: "distinct (map key (filter live (xs[i := it])))"
    by (metis mset_eq_imp_distinct_iff)
  have new: "item_ok khash m' it" using it m' by (simp add: item_ok_def)
  have "\<forall>x\<in>set (xs[i := it]). live x \<longrightarrow> item_ok khash m' x"
  proof (intro ballI impI)
    fix x assume "x \<in> set (xs[i := it])" "live x"
    then have "x = it \<or> (x \<in> set xs \<and> live x)" using set_update_subset_insert[of xs i it] by auto
    then show "item_ok khash m' x" using new old item_ok_ext[OF _ m'(1)] by blast
  qed
  moreover have "disp_ok live hash (xs[i := it]) (max md d)"
    using sl i(1) d by (intro disp_ok_place) (simp_all add: slots_inv_def)
  ultimately show "slots_inv khash m' (xs[i := it]) (max md d)" using dist by (simp add: slots_inv_def)
qed

lemma slots_inv_cong:
  assumes len: "length xs' = length xs"
    and same: "\<forall>s<length xs. key (xs' ! s) = key (xs ! s) \<and> hash (xs' ! s) = hash (xs ! s)"
    and sl: "slots_inv khash m xs md"
  shows "slots_inv khash m xs' md" and "length (filter live xs') = length (filter live xs)"
proof -
  have k: "map key xs' = map key xs" using len same by (intro nth_equalityI) simp_all
  have lv: "live = (\<lambda>x. key x \<noteq> 0)" by (rule ext) (simp add: live_def)
  have f: "\<And>ys. map key (filter live ys) = filter (\<lambda>a. a \<noteq> 0) (map key ys)"
    by (simp add: filter_map lv comp_def)
  have "length (map key (filter live xs')) = length (map key (filter live xs))" by (simp only: f k)
  then show "length (filter live xs') = length (filter live xs)" by simp
  have dist: "distinct (map key (filter live xs'))" using sl by (simp only: f k slots_inv_def)
  have "\<forall>x\<in>set xs'. live x \<longrightarrow> item_ok khash m x"
  proof (intro ballI impI)
    fix x assume "x \<in> set xs'" "live x"
    then obtain s where s: "s < length xs" "x = xs' ! s" using len by (auto simp: in_set_conv_nth)
    then have "key x = key (xs ! s)" "hash x = hash (xs ! s)" using same by simp_all
    moreover have "live (xs ! s)" using \<open>live x\<close> calculation by (simp add: live_def)
    moreover have "xs ! s \<in> set xs" using s by simp
    ultimately have "item_ok khash m (xs ! s)" "key x = key (xs ! s)" "hash x = hash (xs ! s)"
      using sl by (simp_all add: slots_inv_def)
    then show "item_ok khash m x" by (auto simp: item_ok_def split: option.splits)
  qed
  moreover have "disp_ok live hash xs' md"
    using sl len same by (auto simp: slots_inv_def disp_ok_def live_def)
  ultimately show "slots_inv khash m xs' md" using dist by (simp add: slots_inv_def)
qed

lemma max_if: "(if (d::nat) > md then d else md) = max md d"
  by (simp add: max_def)

lemma insert_place_cases:
  assumes inv: "hinv h m" and xs: "item h = Some xs" and kh: "key_hash h = Some khash"
    and room: "size_h h < capacity h"
  obtains
    (fault) i where "i < capacity h" "key (xs ! i) = 0" "\<not> copy_ok h m dat"
      "insert_place h k dat keep m = Inl Undefined_behaviour"
  | (new) i d it m' where "i < capacity h" "key (xs ! i) = 0"
      "disp (capacity h) (khash k) i = d"
      "\<forall>j<d. insert_busy xs m (khash k) k ((ideal (capacity h) (khash k) + j) mod capacity h)"
      "x__hmap_item_create h k dat (khash k) m = Inr (it, m')"
      "insert_place h k dat keep m =
         Inr (0, h\<lparr>item := Some (xs[i := it]), max_dist := max (max_dist h) d,
                   size_h := size_h h + 1\<rparr>, m')"
  | (found) i d where "i < capacity h" "key (xs ! i) \<noteq> 0" "hash (xs ! i) = khash k"
      "strs m (key (xs ! i)) = Some k"
      "disp (capacity h) (khash k) i = d"
      "\<forall>j<d. insert_busy xs m (khash k) k ((ideal (capacity h) (khash k) + j) mod capacity h)"
      "insert_place h k dat keep m =
         Inr (data (xs ! i),
              h\<lparr>item := Some (xs[i := (xs ! i)\<lparr>data := (if \<not> keep then dat else data (xs ! i))\<rparr>])\<rparr>, m)"
proof -
  from insert_probe[OF inv xs room, where hv = "khash k" and k = k] obtain i d where
    p: "probe (insert_busy xs m (khash k) k) (capacity h) (unat (khash k) mod capacity h) 0 = Some (i, d)"
    and i: "i < capacity h" "\<not> insert_busy xs m (khash k) k i" and d: "disp (capacity h) (khash k) i = d"
    and pre: "\<forall>j<d. insert_busy xs m (khash k) k ((ideal (capacity h) (khash k) + j) mod capacity h)"
    by blast
  have c: "capacity h \<noteq> 0" using i(1) by simp
  show ?thesis
  proof (cases "key (xs ! i) = 0")
    case True
    show ?thesis
    proof (cases "x__hmap_item_create h k dat (khash k) m")
      case (Inl e)
      from item_create_fault[OF Inl] have f: "e = Undefined_behaviour" "\<not> copy_ok h m dat"
        by simp_all
      have "insert_place h k dat keep m = Inl Undefined_behaviour"
        using xs kh c p True Inl f(1) by (simp add: insert_place_def)
      then show ?thesis using fault[OF i(1) True f(2)] by simp
    next
      case (Inr r)
      obtain it m' where r: "r = (it, m')" by (cases r)
      have "insert_place h k dat keep m =
         Inr (0, h\<lparr>item := Some (xs[i := it]), max_dist := max (max_dist h) d,
                   size_h := size_h h + 1\<rparr>, m')"
        using xs kh c p True Inr r by (simp add: insert_place_def max_if)
      then show ?thesis using new[OF i(1) True d pre] Inr r by simp
    qed
  next
    case False
    then have m: "hash (xs ! i) = khash k" "strs m (key (xs ! i)) = Some k"
      using i(2) by (simp_all add: insert_busy_def)
    have "insert_place h k dat keep m =
         Inr (data (xs ! i),
              h\<lparr>item := Some (xs[i := (xs ! i)\<lparr>data := (if \<not> keep then dat else data (xs ! i))\<rparr>])\<rparr>, m)"
      using xs kh c p False by (simp add: insert_place_def)
    then show ?thesis using found[OF i(1) False m d pre] by simp
  qed
qed

lemma mem_sub_refl: "mem_sub m m"
  by (simp add: mem_sub_def)

lemma mem_sub_trans: "mem_sub m m' \<Longrightarrow> mem_sub m' m'' \<Longrightarrow> mem_sub m m''"
  by (auto simp: mem_sub_def)

lemma insert_place_hinv:
  assumes inv: "hinv h m" and xs: "item h = Some xs"
    and room: "size_h h < capacity h"
    and res: "insert_place h k dat keep m = Inr (r, h', m')"
  shows "hinv h' m'" "mem_sub m m'" 
    "\<exists>xs' md' sz'. h' = h\<lparr>item := Some xs', max_dist := md', size_h := sz'\<rparr>"
proof -
  from hinv_basic(5)[OF inv] obtain khash where kh: "key_hash h = Some khash" by blast
  note b = hinv_basic[OF inv] and s = hinv_Some[OF inv xs kh]
  from inv xs kh room have "hinv h' m' \<and> mem_sub m m' \<and>
      (\<exists>xs' md' sz'. h' = h\<lparr>item := Some xs', max_dist := md', size_h := sz'\<rparr>)"
  proof (cases rule: insert_place_cases[where k = k and dat = dat and keep = keep])
    case (fault i)
    then show ?thesis using res by simp
  next
    case (new i d it m1)
    note cr = item_create_result[OF new(5)]
    have e: "mem_sub m m1" using new(5) by (rule item_create_ext)
    have h': "h' = h\<lparr>item := Some (xs[i := it]), max_dist := max (max_dist h) d, size_h := size_h h + 1\<rparr>"
      and m': "m' = m1" using new(6) res by simp_all
    have dd: "disp (length xs) (hash it) i = d" using new(3) cr(2) s(1) by simp
    have nl: "\<not> live (xs ! i)" using new(2) by (simp add: live_def)
    have il: "i < length xs" using new(1) s(1) by simp
    have st: "strs m1 (Suc (brk m)) = Some k" using cr(3) by simp
    note sn = slots_inv_new[OF s(3) il nl cr(1) cr(2) e st cr(4) dd]
    have "hinv h' m1" unfolding h'
      by (rule hinvI[where khash = khash and xs = "xs[i := it]"]) (use b kh s sn in simp_all)
    then show ?thesis using e h' m' by blast
  next
    case (found i d)
    let ?xs = "xs[i := (xs ! i)\<lparr>data := (if \<not> keep then dat else data (xs ! i))\<rparr>]"
    have h': "h' = h\<lparr>item := Some ?xs\<rparr>" and m': "m' = m" using found(7) res by simp_all
    have same: "\<forall>s<length xs. key (?xs ! s) = key (xs ! s) \<and> hash (?xs ! s) = hash (xs ! s)"
      using found(1) s(1) by (auto simp: nth_list_update)
    have len: "length ?xs = length xs" by simp
    note sc = slots_inv_cong[OF len same s(3)]
    have "hinv h' m" unfolding h'
      by (rule hinvI[where khash = khash and xs = ?xs]) (use b kh s sc in simp_all)
    moreover have "h' = h\<lparr>item := Some ?xs, max_dist := max_dist h, size_h := size_h h\<rparr>"
      unfolding h' by simp
    ultimately show ?thesis using m' mem_sub_refl by blast
  qed
  then show "hinv h' m'" "mem_sub m m'" 
    "\<exists>xs' md' sz'. h' = h\<lparr>item := Some xs', max_dist := md', size_h := sz'\<rparr>" by blast+
qed

lemma hinv_create_full:
  assumes "hmap_create_full cap dsize lf khash dcopy dfree = Inr h"
  shows "hinv h m" "item h = None" "size_h h = 0" "load_factor h = double_of lf" "key_hash h = khash"
    "data_copy h = dcopy" "data_free h = dfree" "data_size h = nat dsize" "max_dist h = 0"
    "grown (nat cap) (double_of lf) = Some (capacity h)" "0 \<le> cap" "0 \<le> dsize"
    "0 < double_of lf" "double_of lf < 1" "khash \<noteq> None"
proof -
  from assms obtain c where p: "0 \<le> cap" "0 \<le> dsize" "0 < double_of lf" "double_of lf < 1"
      "khash \<noteq> None"
    and g: "grown (nat cap) (double_of lf) = Some c"
    and h: "h = zero_hmap\<lparr>capacity := c, data_size := nat dsize,
                  load_factor := double_of lf, key_hash := khash, data_copy := dcopy,
                  data_free := dfree\<rparr>"
    by (auto simp: hmap_create_full_def Let_def split: if_splits option.splits)
  show "0 \<le> cap" "0 \<le> dsize" "0 < double_of lf" "double_of lf < 1" "khash \<noteq> None" by (rule p)+
  show f: "item h = None" "size_h h = 0" "load_factor h = double_of lf" "key_hash h = khash"
    "data_copy h = dcopy" "data_free h = dfree" "data_size h = nat dsize" "max_dist h = 0"
    unfolding h by (simp_all add: zero_hmap_def)
  have ch: "capacity h = c" unfolding h by simp
  show "grown (nat cap) (double_of lf) = Some (capacity h)" using g ch by simp
  have c: "1 \<le> capacity h" using grown_pos[OF p(3) g] ch by simp
  from p(5) obtain kh where "khash = Some kh" by blast
  then show "hinv h m" using f p c by (intro hinvI_None[where khash = kh]) simp_all
qed

lemma hmap_insert_hinv:
  assumes inv: "hinv h0 m" and res: "hmap_insert h0 k dat keep m = Inr (r, h', m')"
  shows "hinv h' m'" "mem_sub m m'" "capacity h0 \<le> capacity h'"
    "load_factor h' = load_factor h0" "key_hash h' = key_hash h0" "data_copy h' = data_copy h0"
    "data_free h' = data_free h0" "data_size h' = data_size h0" "item h' \<noteq> None"
proof -
  from insert_grow_of_insert[OF inv res] obtain h xs where g: "insert_grow h0 = Inr h" "hinv h m"
    "item h = Some xs" "size_h h < capacity h"
    "h = h0\<lparr>item := Some xs, capacity := capacity h, max_dist := max_dist h\<rparr>"
    "capacity h0 \<le> capacity h" by blast
  have p: "insert_place h k dat keep m = Inr (r, h', m')"
    using res g(1) by (simp add: hmap_insert_split)
  note ip = insert_place_hinv[OF g(2,3,4) p]
  show "hinv h' m'" "mem_sub m m'" by (rule ip)+
  from ip(3) obtain xs' md' sz' where h': "h' = h\<lparr>item := Some xs', max_dist := md', size_h := sz'\<rparr>"
    by blast
  have f: "capacity h' = capacity h" "load_factor h' = load_factor h" "key_hash h' = key_hash h"
    "data_copy h' = data_copy h" "data_free h' = data_free h" "data_size h' = data_size h"
    "item h' \<noteq> None"
    unfolding h' by simp_all
  have f0: "load_factor h = load_factor h0" "key_hash h = key_hash h0"
    "data_copy h = data_copy h0" "data_free h = data_free h0" "data_size h = data_size h0"
    by (subst g(5), simp)+
  show "capacity h0 \<le> capacity h'" "load_factor h' = load_factor h0" "key_hash h' = key_hash h0"
    "data_copy h' = data_copy h0" "data_free h' = data_free h0" "data_size h' = data_size h0"
    "item h' \<noteq> None"
    using f f0 g(6) by simp_all
qed

lemma hmap_insert_returns:
  assumes inv: "hinv h0 m" and ok: "copy_ok h0 m dat" and gr: "insert_grow h0 = Inr h"
  shows "\<exists>r h' m'. hmap_insert h0 k dat keep m = Inr (r, h', m')"
proof -
  from insert_grow_Inr[OF inv gr] obtain xs where g: "hinv h m"
    "item h = Some xs" "size_h h < capacity h"
    "h = h0\<lparr>item := Some xs, capacity := capacity h, max_dist := max_dist h\<rparr>" by blast
  from hinv_basic(5)[OF g(1)] obtain khash where kh: "key_hash h = Some khash" by blast
  have "data_copy h = data_copy h0" "data_size h = data_size h0" by (subst g(4), simp)+
  then have dc: "copy_ok h m dat" using ok by (simp add: copy_ok_def)
  from g(1,2) kh g(3) have "\<exists>r h' m'. insert_place h k dat keep m = Inr (r, h', m')"
  proof (cases rule: insert_place_cases[where k = k and dat = dat and keep = keep])
    case (fault i)
    then show ?thesis using dc by simp
  qed blast+
  then show ?thesis using gr by (simp add: hmap_insert_split)
qed

lemma hmap_insert_fault:
  assumes inv: "hinv h0 m" and ok: "copy_ok h0 m dat"
    and f: "hmap_insert h0 k dat keep m = Inl e"
  shows "insert_grow h0 = Inl e" "e \<noteq> Diverges"
proof -
  show g: "insert_grow h0 = Inl e"
  proof (cases "insert_grow h0")
    case (Inl e')
    then show ?thesis using f by (simp add: hmap_insert_split)
  next
    case (Inr h)
    from hmap_insert_returns[OF inv ok Inr, of k keep] show ?thesis using f by simp
  qed
  from insert_grow_ok[OF inv] show "e \<noteq> Diverges" using g by auto
qed

lemma insert_trace_hinv:
  assumes "hinv h m"
  shows "\<forall>(h', m')\<in>set (insert_trace ins h m). hinv h' m'"
  using assms
proof (induction ins arbitrary: h m)
  case Nil
  then show ?case by simp
next
  case (Cons c ins)
  obtain k dat keep where c: "c = (k, dat, keep)" by (cases c)
  show ?case
  proof (cases "hmap_insert h k dat keep m")
    case (Inl e)
    then show ?thesis using c by simp
  next
    case (Inr res)
    obtain r h' m' where res: "res = (r, h', m')" by (cases res)
    have "hinv h' m'" using hmap_insert_hinv(1)[OF Cons.prems] Inr res by simp
    then show ?thesis using Cons.IH[of h' m'] Inr res c by simp
  qed
qed



lemma grown_2: "grown 2 (3 / 4) = Some 3"
  using grown_three_quarters [of 2] by simp

lemma grown_3: "grown 3 (3 / 4) = Some 5"
  using grown_three_quarters [of 3] by simp

lemma double_of_3_4: "double_of (3 / 4) = 3 / 4"
  using double_of_three_quarters by simp

lemma over_load_eval:
  "cap < 2 ^ 50 \<Longrightarrow> n < 2 ^ 53 \<Longrightarrow> over_load n cap (3 / 4) = (3 * cap < 4 * n)"
  using over_load_three_quarters [of cap n] by simp

lemma max_slots_eval: "\<not> max_slots < 3" "\<not> max_slots < 5"
  by (simp_all add: max_slots_def)

lemmas insert_eval = hmap_insert_def x__hmap_create_items_def x__hmap_resize_items_def
  x__hmap_item_create_def strdup_def malloc_def probe.simps strhash_fnv1a_def Let_def memcpy_def
  zero_item_def grown_2 grown_3 over_load_eval max_slots_eval

lemma hmap_create_2_4: "hmap_create 2 4 = Inr table0"
  by (simp add: hmap_create_def hmap_create_full_def zero_hmap_def table0_def
      double_of_3_4 grown_2)

lemma hmap_create_full_2_4:
  "hmap_create_full 2 4 0.75 (Some strhash_fnv1a) (Some memcpy) (Some free_blk) = Inr table0"
  using hmap_create_2_4 by (simp add: hmap_create_def)

lemma abc_valid: "\<forall>(k, dat, keep)\<in>set abc. valid_data table0 caller_mem dat"
  by (simp add: abc_def caller_mem_def valid_data_def table0_def memcpy_def)

section \<open>The bounded scans of find and remove\<close>

declare hmap_find_loop.simps [simp del] hmap_remove_loop.simps [simp del]
  hmap_find_loop_count.simps [simp del]

lemma find_loop_step:
  "hmap_find_loop xs cap mdist m hv k i d =
     (if d \<le> mdist then
        (if matches xs m hv k i then data (xs ! i)
         else hmap_find_loop xs cap mdist m hv k (Suc i mod cap) (Suc d))
      else 0)"
  by (subst hmap_find_loop.simps) (simp add: matches_def)

lemma remove_loop_step:
  "hmap_remove_loop xs cap mdist m hv k i d =
     (if d \<le> mdist then
        (if matches xs m hv k i then Some i
         else hmap_remove_loop xs cap mdist m hv k (Suc i mod cap) (Suc d))
      else None)"
  by (subst hmap_remove_loop.simps) (simp add: matches_def)

lemma find_loop_count_step:
  "hmap_find_loop_count xs cap mdist m hv k i d =
     (if d \<le> mdist then
        (if matches xs m hv k i then 1
         else 1 + hmap_find_loop_count xs cap mdist m hv k (Suc i mod cap) (Suc d))
      else 0)"
  by (subst hmap_find_loop_count.simps) (simp add: matches_def)

lemma offset_Suc: "(Suc i mod cap + j) mod cap = (i + Suc j) mod cap"
  by (metis add_Suc add_Suc_right mod_add_left_eq)

lemma scan_none_both:
  assumes "i < cap" "\<forall>j. d + j \<le> mdist \<longrightarrow> \<not> matches xs m hv k ((i + j) mod cap)"
  shows "hmap_find_loop xs cap mdist m hv k i d = 0 \<and>
         hmap_remove_loop xs cap mdist m hv k i d = None"
  using assms
proof (induction "Suc mdist - d" arbitrary: i d)
  case 0
  then show ?case
    by (subst find_loop_step, subst remove_loop_step) simp
next
  case (Suc n)
  have c: "0 < cap" using Suc.prems(1) by simp
  have le: "d \<le> mdist" using Suc.hyps(2) by simp
  have "\<not> matches xs m hv k ((i + 0) mod cap)" using Suc.prems(2) le by (metis add.right_neutral)
  then have nm: "\<not> matches xs m hv k i" using Suc.prems(1) by simp
  have n: "n = Suc mdist - (d + 1)" using Suc.hyps(2) by simp
  have i': "Suc i mod cap < cap" using c by simp
  have rest: "\<forall>j. d + 1 + j \<le> mdist \<longrightarrow> \<not> matches xs m hv k ((Suc i mod cap + j) mod cap)"
  proof (intro allI impI)
    fix j assume "d + 1 + j \<le> mdist"
    then have "d + Suc j \<le> mdist" by simp
    with Suc.prems(2) have "\<not> matches xs m hv k ((i + Suc j) mod cap)" by blast
    then show "\<not> matches xs m hv k ((Suc i mod cap + j) mod cap)" by (simp add: offset_Suc del: add_Suc_right)
  qed
  show ?case using Suc.hyps(1)[OF n i' rest] nm le
    by (subst find_loop_step, subst remove_loop_step) simp
qed

lemmas scan_none = scan_none_both[THEN conjunct1] scan_none_both[THEN conjunct2]

lemma scan_first_all:
  assumes "i < cap" "d + j \<le> mdist" "matches xs m hv k ((i + j) mod cap)"
    "\<forall>j'<j. \<not> matches xs m hv k ((i + j') mod cap)"
  shows "hmap_find_loop xs cap mdist m hv k i d = data (xs ! ((i + j) mod cap)) \<and>
         hmap_remove_loop xs cap mdist m hv k i d = Some ((i + j) mod cap) \<and>
         hmap_find_loop_count xs cap mdist m hv k i d = Suc j"
  using assms
proof (induction j arbitrary: i d)
  case 0
  then show ?case
    by (subst find_loop_step, subst remove_loop_step, subst find_loop_count_step) simp
next
  case (Suc j)
  have c: "0 < cap" using Suc.prems(1) by simp
  have le: "d \<le> mdist" "d + 1 + j \<le> mdist" using Suc.prems(2) by simp_all
  have "\<not> matches xs m hv k ((i + 0) mod cap)" using Suc.prems(4) by blast
  then have nm: "\<not> matches xs m hv k i" using Suc.prems(1) by simp
  have i': "Suc i mod cap < cap" using c by simp
  have mt: "matches xs m hv k ((Suc i mod cap + j) mod cap)" using Suc.prems(3) by (simp add: offset_Suc del: add_Suc_right)
  have pre: "\<forall>j'<j. \<not> matches xs m hv k ((Suc i mod cap + j') mod cap)"
  proof (intro allI impI)
    fix j' assume "j' < j"
    then have "Suc j' < Suc j" by simp
    with Suc.prems(4) have "\<not> matches xs m hv k ((i + Suc j') mod cap)" by blast
    then show "\<not> matches xs m hv k ((Suc i mod cap + j') mod cap)" by (simp add: offset_Suc del: add_Suc_right)
  qed
  have ih: "hmap_find_loop xs cap mdist m hv k (Suc i mod cap) (Suc d) = data (xs ! ((i + Suc j) mod cap)) \<and>
         hmap_remove_loop xs cap mdist m hv k (Suc i mod cap) (Suc d) = Some ((i + Suc j) mod cap) \<and>
         hmap_find_loop_count xs cap mdist m hv k (Suc i mod cap) (Suc d) = Suc j"
    using Suc.IH[OF i' le(2) mt pre] unfolding offset_Suc by simp
  show ?case using ih nm le(1)
    by (subst find_loop_step, subst remove_loop_step, subst find_loop_count_step) simp
qed

lemmas scan_first = scan_first_all[THEN conjunct1] scan_first_all[THEN conjunct2, THEN conjunct1]
  scan_first_all[THEN conjunct2, THEN conjunct2]

lemma find_loop_count_le: "hmap_find_loop_count xs cap mdist m hv k i d \<le> Suc mdist - d"
proof (induction "Suc mdist - d" arbitrary: i d)
  case 0
  then show ?case by (subst find_loop_count_step) simp
next
  case (Suc n)
  have n: "n = Suc mdist - (d + 1)" using Suc.hyps(2) by simp
  have "hmap_find_loop_count xs cap mdist m hv k ((i + 1) mod cap) (d + 1) \<le> n"
    using Suc.hyps(1)[OF n, of "(i + 1) mod cap"] n by simp
  moreover have "Suc n = Suc mdist - d" using Suc.hyps(2) by simp
  ultimately show ?case
    by (subst find_loop_count_step) (simp del: Suc_diff_le diff_Suc_Suc)
qed

lemma first_match:
  assumes "matches xs m hv k ((i + j0) mod cap)"
  shows "\<exists>j\<le>j0. matches xs m hv k ((i + j) mod cap) \<and> (\<forall>j'<j. \<not> matches xs m hv k ((i + j') mod cap))"
proof -
  let ?P = "\<lambda>j. matches xs m hv k ((i + j) mod cap)"
  define j where "j = (LEAST j. ?P j)"
  have "?P j" unfolding j_def using assms by (rule LeastI)
  moreover have "j \<le> j0" unfolding j_def using assms by (rule Least_le)
  moreover have "\<forall>j'<j. \<not> ?P j'" unfolding j_def using not_less_Least by blast
  ultimately show ?thesis by blast
qed

lemma scan_cases:
  assumes "i < cap"
  obtains (none) "\<forall>j\<le>mdist. \<not> matches xs m hv k ((i + j) mod cap)"
      "hmap_find_loop xs cap mdist m hv k i 0 = 0"
      "hmap_remove_loop xs cap mdist m hv k i 0 = None"
  | (hit) j where "j \<le> mdist" "matches xs m hv k ((i + j) mod cap)"
      "\<forall>j'<j. \<not> matches xs m hv k ((i + j') mod cap)"
      "hmap_find_loop xs cap mdist m hv k i 0 = data (xs ! ((i + j) mod cap))"
      "hmap_remove_loop xs cap mdist m hv k i 0 = Some ((i + j) mod cap)"
proof (cases "\<exists>j\<le>mdist. matches xs m hv k ((i + j) mod cap)")
  case False
  then have a: "\<forall>j. 0 + j \<le> mdist \<longrightarrow> \<not> matches xs m hv k ((i + j) mod cap)" by simp
  show ?thesis using none scan_none[OF assms a] False by blast
next
  case True
  then obtain j0 where j0: "j0 \<le> mdist" "matches xs m hv k ((i + j0) mod cap)" by blast
  from first_match[OF j0(2)] obtain j where j: "j \<le> j0" "matches xs m hv k ((i + j) mod cap)"
    "\<forall>j'<j. \<not> matches xs m hv k ((i + j') mod cap)" by blast
  have le: "0 + j \<le> mdist" using j(1) j0(1) by simp
  show ?thesis using hit[of j] scan_first(1,2)[OF assms le j(2,3)] j le by simp
qed

lemma slot_item_ok:
  assumes "slots_inv khash m xs md" "s < length xs" "key (xs ! s) \<noteq> 0"
  shows "item_ok khash m (xs ! s)" "disp (length xs) (hash (xs ! s)) s \<le> md"
  using assms by (auto simp: slots_inv_def disp_ok_def live_def)

lemma matches_iff:
  assumes "slots_inv khash m xs md" "s < length xs"
  shows "matches xs m (khash k) k s \<longleftrightarrow> key (xs ! s) \<noteq> 0 \<and> strs m (key (xs ! s)) = Some k"
  using slot_item_ok(1)[OF assms] by (auto simp: matches_def item_ok_def)

lemma present_reach:
  assumes sl: "slots_inv khash m xs md" and s: "s < length xs" "key (xs ! s) \<noteq> 0"
    "strs m (key (xs ! s)) = Some k"
  shows "\<exists>j\<le>md. matches xs m (khash k) k ((ideal (length xs) (khash k) + j) mod length xs)"
proof -
  have h: "hash (xs ! s) = khash k" using slot_item_ok(1)[OF sl s(1,2)] s(3) by (simp add: item_ok_def)
  have d: "disp (length xs) (khash k) s \<le> md" using slot_item_ok(2)[OF sl s(1,2)] h by simp
  have "(ideal (length xs) (khash k) + disp (length xs) (khash k) s) mod length xs = s"
    using s(1) by (rule offset_disp(1))
  moreover have "matches xs m (khash k) k s" using matches_iff[OF sl s(1)] s by simp
  ultimately show ?thesis using d by (intro exI[of _ "disp (length xs) (khash k) s"]) simp
qed

lemma find_remove_cases:
  assumes inv: "hinv h m"
  obtains (absent) "\<not> present h m k" "hmap_find h k m = Inr 0" "hmap_remove h k m = Inr (0, h, m)"
      "hmap_find_count h k m \<le> max_dist h + 1"
  | (hit) xs khash i j where "item h = Some xs" "key_hash h = Some khash" "i < capacity h"
      "key (xs ! i) \<noteq> 0" "strs m (key (xs ! i)) = Some k" "hash (xs ! i) = khash k"
      "0 < size_h h" "j \<le> max_dist h" "i = (ideal (capacity h) (khash k) + j) mod capacity h"
      "\<forall>j'<j. \<not> matches xs m (khash k) k ((ideal (capacity h) (khash k) + j') mod capacity h)"
      "hmap_find h k m = Inr (data (xs ! i))"
      "hmap_remove h k m =
         Inr (data (xs ! i), h\<lparr>item := Some (xs[i := zero_item]), size_h := size_h h - 1\<rparr>,
              drop_str (key (xs ! i)) m)"
      "hmap_find_count h k m = j + 1"
proof -
  from hinv_basic(5)[OF inv] obtain khash where kh: "key_hash h = Some khash" by blast
  note b = hinv_basic[OF inv]
  have c: "0 < capacity h" using b(3) by simp
  show ?thesis
  proof (cases "item h")
    case None
    then have "size_h h = 0" using hinv_None[OF inv] by simp
    then show ?thesis using absent None
      by (simp add: present_def hmap_find_def hmap_remove_def hmap_find_count_def)
  next
    case (Some xs)
    note s = hinv_Some[OF inv Some kh]
    let ?a = "ideal (capacity h) (khash k)"
    have a: "?a < capacity h" using c by (rule ideal_less)
    show ?thesis
    proof (cases "size_h h = 0")
      case True
      then have "filter live xs = []" using s(2) by simp
      then have "\<forall>x\<in>set xs. \<not> live x" by (simp add: filter_empty_conv)
      then have "\<not> present h m k" using Some by (auto simp: present_def live_def)
      then show ?thesis using absent True
        by (simp add: hmap_find_def hmap_remove_def hmap_find_count_def)
    next
      case False
      from a show ?thesis
      proof (cases rule: scan_cases[where mdist = "max_dist h" and xs = xs and m = m
            and hv = "khash k" and k = k])
        case none
        have "\<not> present h m k"
        proof
          assume "present h m k"
          then obtain i where i: "i < length xs" "key (xs ! i) \<noteq> 0" "strs m (key (xs ! i)) = Some k"
            using Some by (auto simp: present_def)
          from present_reach[OF s(3) i] show False using none(1) s(1) by auto
        qed
        moreover have "hmap_find_count h k m \<le> max_dist h + 1"
          using find_loop_count_le[of xs "capacity h" "max_dist h" m "khash k" k ?a 0]
          by (simp add: hmap_find_count_def Some kh ideal_def)
        ultimately show ?thesis using absent none(2,3) False Some kh c
          by (simp add: hmap_find_def hmap_remove_def ideal_def)
      next
        case (hit j)
        let ?i = "(?a + j) mod capacity h"
        have i: "?i < capacity h" using c by simp
        then have il: "?i < length xs" using s(1) by simp
        have m: "key (xs ! ?i) \<noteq> 0" "strs m (key (xs ! ?i)) = Some k" "hash (xs ! ?i) = khash k"
          using hit(2) by (simp_all add: matches_def)
        have le: "0 + j \<le> max_dist h" using hit(1) by simp
        have cnt: "hmap_find_count h k m = j + 1"
          using scan_first(3)[OF a le hit(2,3)] False Some kh c
          by (simp add: hmap_find_count_def ideal_def)
        have f: "hmap_find h k m = Inr (data (xs ! ?i))"
          using hit(4) False Some kh c by (simp add: hmap_find_def ideal_def)
        have r: "hmap_remove h k m =
         Inr (data (xs ! ?i), h\<lparr>item := Some (xs[?i := zero_item]), size_h := size_h h - 1\<rparr>,
              drop_str (key (xs ! ?i)) m)"
          using hit(5) False Some kh c m by (simp add: hmap_remove_def ideal_def free_str_def drop_str_def)
        show ?thesis using that(2)[OF Some kh i m _ hit(1) refl hit(3) f r cnt] False by simp
      qed
    qed
  qed
qed

lemma mset_filter_update_dead:
  assumes "i < length xs" "lv (xs ! i)" "\<not> lv z"
  shows "mset (filter lv xs) = add_mset (xs ! i) (mset (filter lv (xs[i := z])))"
proof -
  have "mset (xs[i := z]) = add_mset z (mset xs - {#xs ! i#})"
    using assms(1) by (rule mset_update)
  then have "filter_mset lv (mset (xs[i := z])) = filter_mset lv (mset xs - {#xs ! i#})"
    using assms(3) by simp
  also have "\<dots> = filter_mset lv (mset xs) - {#xs ! i#}"
    using assms(2) by (simp add: filter_diff_mset)
  finally have e: "mset (filter lv (xs[i := z])) = mset (filter lv xs) - {#xs ! i#}" by simp
  have "xs ! i \<in># mset (filter lv xs)" using assms(1,2) by simp
  then show ?thesis unfolding e by simp
qed

lemma item_ok_free:
  "item_ok khash m it \<Longrightarrow> key it \<noteq> a \<Longrightarrow> item_ok khash (drop_str a m) it"
  by (simp add: item_ok_def drop_str_def)

lemma slots_inv_remove:
  assumes sl: "slots_inv khash m xs md" and i: "i < length xs" "live (xs ! i)"
  shows "slots_inv khash (drop_str (key (xs ! i)) m) (xs[i := zero_item]) md"
    and "length (filter live xs) = Suc (length (filter live (xs[i := zero_item])))"
proof -
  let ?xs = "xs[i := zero_item]"
  have ms: "mset (filter live xs) = add_mset (xs ! i) (mset (filter live ?xs))"
    using i by (intro mset_filter_update_dead) simp_all
  then have "size (mset (filter live xs)) = Suc (size (mset (filter live ?xs)))" by simp
  then show "length (filter live xs) = Suc (length (filter live ?xs))" by (simp only: size_mset)
  have "mset (map key (filter live xs)) = mset (key (xs ! i) # map key (filter live ?xs))"
    using ms by (metis mset.simps(2) mset_map image_mset_add_mset)
  moreover have "distinct (map key (filter live xs))" using sl by (simp add: slots_inv_def)
  ultimately have "distinct (key (xs ! i) # map key (filter live ?xs))"
    by (metis mset_eq_imp_distinct_iff)
  then have dist: "distinct (map key (filter live ?xs))"
    and notin: "key (xs ! i) \<notin> set (map key (filter live ?xs))" by simp_all
  have "\<forall>x\<in>set ?xs. live x \<longrightarrow> item_ok khash (drop_str (key (xs ! i)) m) x"
  proof (intro ballI impI)
    fix x assume x: "x \<in> set ?xs" "live x"
    then have "key x \<in> set (map key (filter live ?xs))" by simp
    then have "key x \<noteq> key (xs ! i)" using notin by metis
    moreover have "x \<in> set xs" using x set_update_subset_insert[of xs i zero_item] by auto
    then have "item_ok khash m x" using sl x(2) by (simp add: slots_inv_def)
    ultimately show "item_ok khash (drop_str (key (xs ! i)) m) x" by (intro item_ok_free)
  qed
  moreover have "disp_ok live hash ?xs md"
    using sl i(1) by (auto simp: slots_inv_def disp_ok_def nth_list_update)
  ultimately show "slots_inv khash (drop_str (key (xs ! i)) m) ?xs md"
    using dist by (simp add: slots_inv_def)
qed

lemma hmap_remove_hinv:
  assumes inv: "hinv h m"
  shows "\<exists>r h' m'. hmap_remove h k m = Inr (r, h', m') \<and> hinv h' m' \<and>
           capacity h' = capacity h \<and> max_dist h' = max_dist h \<and>
           load_factor h' = load_factor h \<and> key_hash h' = key_hash h \<and>
           data_copy h' = data_copy h \<and> data_free h' = data_free h \<and> data_size h' = data_size h \<and>
           size_h h' \<le> size_h h \<and> brk m' = brk m \<and> blks m' = blks m"
  using inv
proof (cases rule: find_remove_cases[where k = k])
  case absent
  then show ?thesis using inv by simp
next
  case (hit xs khash i j)
  note b = hinv_basic[OF inv] and s = hinv_Some[OF inv hit(1,2)]
  let ?h = "h\<lparr>item := Some (xs[i := zero_item]), size_h := size_h h - 1\<rparr>"
  let ?m = "drop_str (key (xs ! i)) m"
  have il: "i < length xs" "live (xs ! i)" using hit(3,4) s(1) by (simp_all add: live_def)
  note sr = slots_inv_remove[OF s(3) il]
  have "hinv ?h ?m"
  proof (rule hinvI[where khash = khash and xs = "xs[i := zero_item]"])
    show "size_h ?h = length (filter live (xs[i := zero_item]))" using s(2) sr(2) by simp
    show "slots_inv khash ?m (xs[i := zero_item]) (max_dist ?h)" using sr(1) by simp
  qed (use b hit(2) s(1) s(4) in simp_all)
  moreover have "brk ?m = brk m" "blks ?m = blks m" by (simp_all add: drop_str_def)
  ultimately show ?thesis using hit(12) by simp
qed

section \<open>The scenario states, by evaluation\<close>

lemma replicate_numeral: "replicate (numeral v) x = x # replicate (numeral v - 1) x"
  by (simp add: numeral_eq_Suc)

lemma list_update_Cons_numeral: "(x # xs)[numeral v := y] = x # xs[numeral v - 1 := y]"
  by (simp add: numeral_eq_Suc)

lemmas list_eval = replicate_numeral list_update_Cons_numeral

lemmas remove_eval = hmap_remove_def hmap_find_def remove_loop_step find_loop_step matches_def
  free_str_def drop_str_def strhash_fnv1a_def

lemmas state_defs = table0_def caller_mem_def slot_def table_ab_def mem_ab_def table_abc_def
  mem_abc_def table_b_def mem_b_def table_bb_def mem_bb_def table_a_def mem_a_def table_aa_def

lemma insert_a: "hmap_insert table0 ''a'' (Suc 0) False caller_mem = Inr (0, table_a, mem_a)"
  by (simp add: state_defs insert_eval list_eval)

lemma insert_ab: "hmap_insert table_a ''b'' 2 False mem_a = Inr (0, table_ab, mem_ab)"
  by (simp add: state_defs insert_eval list_eval)

lemma insert_abc: "hmap_insert table_ab ''c'' 3 False mem_ab = Inr (0, table_abc, mem_abc)"
  by (simp add: state_defs insert_eval list_eval)

lemma remove_a: "hmap_remove table_ab ''a'' mem_ab = Inr (5, table_b, mem_b)"
  by (simp add: state_defs remove_eval list_eval)

lemma insert_bb: "hmap_insert table_b ''b'' 3 keep mem_b = Inr (0, table_bb, mem_bb)"
  by (simp add: state_defs insert_eval list_eval)

lemma insert_aa: "hmap_insert table_a ''a'' 2 False mem_a = Inr (5, table_aa, mem_a)"
  by (simp add: state_defs insert_eval list_eval)

lemma run_ab: "run [Insert ''a'' 1 False, Insert ''b'' 2 False] (table0, caller_mem) = Inr (table_ab, mem_ab)"
  by (simp add: insert_a insert_ab)

lemma run_abc:
  "run [Insert ''a'' 1 False, Insert ''b'' 2 False, Insert ''c'' 3 False] (table0, caller_mem) =
     Inr (table_abc, mem_abc)"
  by (simp add: insert_a insert_ab insert_abc)

lemma run_b:
  "run [Insert ''a'' 1 False, Insert ''b'' 2 False, Remove ''a''] (table0, caller_mem) =
     Inr (table_b, mem_b)"
  by (simp add: insert_a insert_ab remove_a)

section \<open>Sequences of calls\<close>

lemma step_hinv:
  assumes inv: "hinv h m" and st: "step c (h, m) = Inr (h', m')"
  shows "hinv h' m'" "capacity h \<le> capacity h'" "load_factor h' = load_factor h"
    "key_hash h' = key_hash h" "data_copy h' = data_copy h" "data_free h' = data_free h"
    "data_size h' = data_size h"
proof -
  have "hinv h' m' \<and> capacity h \<le> capacity h' \<and> load_factor h' = load_factor h \<and>
    key_hash h' = key_hash h \<and> data_copy h' = data_copy h \<and> data_free h' = data_free h \<and>
    data_size h' = data_size h"
  proof (cases c)
    case (Insert k dat keep)
    then obtain r where "hmap_insert h k dat keep m = Inr (r, h', m')"
      using st by (auto split: sum.splits)
    from hmap_insert_hinv[OF inv this] show ?thesis by simp
  next
    case (Remove k)
    then obtain r where "hmap_remove h k m = Inr (r, h', m')"
      using st by (auto split: sum.splits)
    with hmap_remove_hinv[OF inv, of k] show ?thesis by auto
  next
    case Resize
    then have r: "x__hmap_resize_items h = Inr h'" "m' = m" using st by (auto split: sum.splits)
    then obtain ys where ys: "item h = Some ys"
      by (cases "item h") (auto simp: x__hmap_resize_items_def split: if_splits option.splits)
    from resize_Inr[OF inv ys r(1)] obtain xs where x: "hinv h' m" "capacity h < capacity h'"
      "h' = h\<lparr>item := Some xs, capacity := capacity h', max_dist := max_dist h'\<rparr>"
      by auto
    have "load_factor h' = load_factor h \<and>
      key_hash h' = key_hash h \<and> data_copy h' = data_copy h \<and> data_free h' = data_free h \<and>
      data_size h' = data_size h" by (subst x(3), simp)+
    then show ?thesis using x(1,2) r(2) by simp
  qed
  then show "hinv h' m'" "capacity h \<le> capacity h'" "load_factor h' = load_factor h"
    "key_hash h' = key_hash h" "data_copy h' = data_copy h" "data_free h' = data_free h"
    "data_size h' = data_size h" by simp_all
qed

lemma run_hinv:
  assumes "hinv h m" "run cs (h, m) = Inr (h', m')"
  shows "hinv h' m' \<and> capacity h \<le> capacity h' \<and> load_factor h' = load_factor h \<and>
    key_hash h' = key_hash h \<and> data_copy h' = data_copy h \<and> data_free h' = data_free h \<and>
    data_size h' = data_size h"
  using assms
proof (induction cs arbitrary: h m)
  case Nil
  then show ?case by simp
next
  case (Cons c cs)
  from Cons.prems(2) obtain h1 m1 where s: "step c (h, m) = Inr (h1, m1)"
    and r: "run cs (h1, m1) = Inr (h', m')"
    by (cases "step c (h, m)") auto
  note st = step_hinv[OF Cons.prems(1) s]
  from Cons.IH[OF st(1) r] st(2-) show ?case by simp
qed

lemma disp_offset_ex:
  assumes "i < cap" "disp cap hv i \<le> md"
  shows "\<exists>j\<le>md. i = (unat hv mod cap + j) mod cap"
  using offset_disp(1)[OF assms(1), of hv] assms(2) unfolding ideal_def by metis

lemma present_set:
  "present h m k \<longleftrightarrow>
     (case item h of None \<Rightarrow> False
      | Some xs \<Rightarrow> \<exists>it\<in>set xs. key it \<noteq> 0 \<and> strs m (key it) = Some k)"
proof (cases "item h")
  case None
  then show ?thesis by (simp add: present_def)
next
  case (Some xs)
  have "(\<exists>i<length xs. key (xs ! i) \<noteq> 0 \<and> strs m (key (xs ! i)) = Some k) \<longleftrightarrow>
    (\<exists>it\<in>set xs. key it \<noteq> 0 \<and> strs m (key it) = Some k)"
    by (metis in_set_conv_nth)
  then show ?thesis using Some by (simp add: present_def)
qed

lemma present_abc: "present table_abc mem_abc ''b''" "\<not> present table_abc mem_abc ''z''"
  by (simp_all add: present_set state_defs zero_item_def)


section \<open>Insertions of distinct keys\<close>

lemma stored_mset:
  assumes "item h = Some xs" "item g = Some ys" "mset (filter live ys) = mset (filter live xs)"
  shows "stored g m k p \<longleftrightarrow> stored h m k p"
proof -
  have "set (filter live ys) = set (filter live xs)" using assms(3) by (rule mset_eq_setD)
  then have "\<And>it. (it \<in> set ys \<and> key it \<noteq> 0) \<longleftrightarrow> (it \<in> set xs \<and> key it \<noteq> 0)"
    by (auto simp: live_def)
  then show ?thesis using assms(1,2) unfolding stored_def by auto
qed

lemma live_keys_mset:
  assumes "item h = Some xs" "item g = Some ys" "mset (filter live ys) = mset (filter live xs)"
  shows "mset (live_keys g m) = mset (live_keys h m)"
  using assms by (simp add: live_keys_def)

lemma tracks_find:
  assumes tr: "tracks m0 ins h m" and d: "distinct (map fst ins)" and e: "(k, dat, keep) \<in> set ins"
  shows "\<exists>p. hmap_find h k m = Inr p \<and> val_ok m0 h m dat p"
proof -
  have inv: "hinv h m" using tr by (simp add: tracks_def)
  from tr e obtain p where p: "stored h m k p" "val_ok m0 h m dat p"
    by (auto simp: tracks_def)
  then obtain xs it where xs: "item h = Some xs" and it: "it \<in> set xs" "key it \<noteq> 0"
    "strs m (key it) = Some k" "data it = p"
    by (auto simp: stored_def split: option.splits)
  have "distinct (live_keys h m)"
    using tr d by (metis mset_eq_imp_distinct_iff tracks_def)
  then have inj: "inj_on (\<lambda>it. the (strs m (key it))) (set (filter live xs))"
    using xs by (simp add: live_keys_def distinct_map)
  from inv show ?thesis
  proof (cases rule: find_remove_cases[where k = k])
    case absent
    then show ?thesis using xs it by (auto simp: present_set)
  next
    case (hit ys khash i j)
    have ys: "ys = xs" using hit(1) xs by simp
    have "xs ! i \<in> set (filter live xs)" using hit(3,4) hinv_Some(1)[OF inv hit(1,2)] ys
      by (simp add: live_def)
    moreover have "it \<in> set (filter live xs)" using it by (simp add: live_def)
    moreover have "the (strs m (key (xs ! i))) = the (strs m (key it))" using hit(5) it(3) ys by simp
    ultimately have "xs ! i = it" using inj by (meson inj_onD)
    then show ?thesis using hit(11) ys it(4) p(2) by simp
  qed
qed

lemma val_ok_ext:
  assumes "val_ok m0 h m dat p" "mem_sub m m'" "data_copy h' = data_copy h" "data_size h' = data_size h"
  shows "val_ok m0 h' m' dat p"
  using assms by (auto simp: val_ok_def mem_sub_def)

lemma valid_copy_ok:
  assumes "valid_data h m0 dat" "mem_sub m0 m" "data_copy g = data_copy h"
    "data_size g = data_size h"
  shows "copy_ok g m dat"
  using assms by (auto simp: valid_data_def copy_ok_def mem_sub_def split: option.splits)

lemma tracks_insert:
  assumes tr: "tracks m0 done h m" and new: "k \<notin> fst ` set done"
    and ok: "valid_data h m0 dat"
    and ret: "hmap_insert h k dat keep m = Inr (rv, h', m')"
  shows "rv = 0 \<and> tracks m0 (done @ [(k, dat, keep)]) h' m'"
proof -
  have inv: "hinv h m" and sub: "mem_sub m0 m"
    and lk: "mset (live_keys h m) = mset (map fst done)"
    and old: "\<forall>(k, dat, keep)\<in>set done. \<exists>p. stored h m k p \<and> val_ok m0 h m dat p"
    using tr by (simp_all add: tracks_def)
  from insert_grow_of_insert[OF inv ret] obtain g xs where g: "insert_grow h = Inr g" "hinv g m"
    "item g = Some xs" "size_h g < capacity g"
    "mset (filter live xs) = (case item h of None \<Rightarrow> {#} | Some ys \<Rightarrow> mset (filter live ys))"
    "g = h\<lparr>item := Some xs, capacity := capacity g, max_dist := max_dist g\<rparr>" by blast
  have gf: "data_copy g = data_copy h" "data_size g = data_size h" by (subst g(6), simp)+
  from hinv_basic(5)[OF g(2)] obtain khash where kh: "key_hash g = Some khash" by blast
  note s = hinv_Some[OF g(2,3) kh]
  have lkg: "mset (live_keys g m) = mset (map fst done)"
  proof (cases "item h")
    case None
    then show ?thesis using g(3,5) lk by (simp add: live_keys_def)
  next
    case (Some ys)
    then show ?thesis using live_keys_mset[OF Some g(3), of m] g(5) lk by simp
  qed
  have stg: "stored g m k' p \<longleftrightarrow> stored h m k' p" for k' p
  proof (cases "item h")
    case None
    then have "filter live xs = []" using g(5) by simp
    then have "\<forall>it\<in>set xs. key it = 0" by (auto simp: filter_empty_conv live_def)
    then show ?thesis using None g(3) by (auto simp: stored_def)
  next
    case (Some ys)
    then show ?thesis using stored_mset[OF Some g(3), of m k' p] g(5) by simp
  qed
  have okl: "\<forall>x\<in>set xs. key x \<noteq> 0 \<longrightarrow> key x \<le> brk m"
    using s(3) by (auto simp: slots_inv_def item_ok_def live_def)
  from g(2,3) kh g(4) show ?thesis
  proof (cases rule: insert_place_cases[where k = k and dat = dat and keep = keep])
    case (fault i)
    then show ?thesis using valid_copy_ok[OF ok sub gf] by simp
  next
    case (found i d)
    have "xs ! i \<in> set (filter live xs)" using found(1,2) s(1) by (simp add: live_def)
    then have "the (strs m (key (xs ! i))) \<in> set (live_keys g m)"
      using g(3) by (simp add: live_keys_def)
    then have "k \<in> set (live_keys g m)" using found(4) by simp
    then have "k \<in> set (map fst done)" using lkg by (metis mset_eq_setD)
    then show ?thesis using new by simp
  next
    case (new i d it m1)
    let ?xs = "xs[i := it]"
    let ?h = "g\<lparr>item := Some ?xs, max_dist := max (max_dist g) d, size_h := size_h g + 1\<rparr>"
    note cr = item_create_result[OF new(5)]
    note ip = insert_place_hinv[OF g(2,3,4) new(6)]
    have res: "hmap_insert h k dat keep m = Inr (0, ?h, m1)"
      using g(1) new(6) by (simp add: hmap_insert_split)
    have il: "i < length xs" "\<not> live (xs ! i)" "live it"
      using new(1,2) s(1) cr(1) by (simp_all add: live_def)
    have hf: "data_copy ?h = data_copy h" "data_size ?h = data_size h" "item ?h = Some ?xs"
      using gf by simp_all
    have same: "strs m1 (key x) = strs m (key x)" if "x \<in> set xs" "key x \<noteq> 0" for x
      using okl that cr(3) by auto
    have ms: "mset (filter live ?xs) = add_mset it (mset (filter live xs))"
      using il by (intro mset_filter_update_free)
    have "image_mset (\<lambda>it. the (strs m1 (key it))) (mset (filter live xs)) =
          image_mset (\<lambda>it. the (strs m (key it))) (mset (filter live xs))"
      by (intro image_mset_cong) (auto simp: same live_def)
    moreover have "the (strs m1 (key it)) = k" using cr(1,3) by simp
    ultimately have "mset (live_keys ?h m1) = add_mset k (mset (live_keys g m))"
      using ms g(3) by (simp add: live_keys_def)
    then have A: "mset (live_keys ?h m1) = mset (map fst (done @ [(k, dat, keep)]))"
      using lkg by simp
    have keep_old: "stored ?h m1 k' p" if "stored h m k' p" for k' p
    proof -
      from that have "stored g m k' p" using stg by simp
      then obtain x where x: "x \<in> set xs" "key x \<noteq> 0" "strs m (key x) = Some k'" "data x = p"
        using g(3) by (auto simp: stored_def)
      then obtain j where j: "j < length xs" "xs ! j = x" by (auto simp: in_set_conv_nth)
      then have "j \<noteq> i" using x(2) new(2) by auto
      then have "?xs ! j = x" using j by simp
      then have "x \<in> set ?xs" using j(1) by (metis length_list_update nth_mem)
      then show ?thesis using x same[OF x(1,2)] by (auto simp: stored_def)
    qed
    have B: "\<forall>(k', dat', keep')\<in>set (done @ [(k, dat, keep)]).
               \<exists>p. stored ?h m1 k' p \<and> val_ok m0 ?h m1 dat' p"
    proof (clarify)
      fix k' dat' keep' assume e: "(k', dat', keep') \<in> set (done @ [(k, dat, keep)])"
      show "\<exists>p. stored ?h m1 k' p \<and> val_ok m0 ?h m1 dat' p"
      proof (cases "(k', dat', keep') \<in> set done")
        case True
        with old obtain p where p: "stored h m k' p" "val_ok m0 h m dat' p" by auto
        have "val_ok m0 ?h m1 dat' p" using p(2) ip(2) hf(1,2) by (rule val_ok_ext)
        then show ?thesis using keep_old[OF p(1)] by blast
      next
        case False
        then have eq: "k' = k" "dat' = dat" using e by simp_all
        have "it \<in> set ?xs" using il(1) by (rule set_update_memI)
        then have st: "stored ?h m1 k (data it)" using il(3) cr(1,3) by (auto simp: stored_def live_def)
        have "val_ok m0 ?h m1 dat (data it)"
        proof (cases "dat \<noteq> 0 \<and> data_copy h \<noteq> None")
          case True
          then have v: "dat \<le> brk m0" using ok by (auto simp: valid_data_def)
          then have "blks m dat = blks m0 dat" using sub by (simp add: mem_sub_def)
          moreover have "brk m0 \<le> brk m" using sub by (simp add: mem_sub_def)
          ultimately show ?thesis using True cr(6) gf by (simp add: val_ok_def)
        next
          case False
          then show ?thesis using cr(6) gf by (auto simp: val_ok_def)
        qed
        then show ?thesis using st eq by blast
      qed
    qed
    have "mem_sub m0 m1" using sub ip(2) by (rule mem_sub_trans)
    then have "tracks m0 (done @ [(k, dat, keep)]) ?h m1"
      using ip(1) A B unfolding tracks_def by blast
    then show ?thesis using res ret by simp
  qed
qed

lemma tracks_run:
  assumes "tracks m0 done h m" "distinct (map fst (done @ ins))"
    and "\<forall>(k, dat, keep)\<in>set ins. valid_data h m0 dat"
  shows "case run (insert_calls ins) (h, m) of
           Inl e \<Rightarrow> e \<noteq> Diverges
         | Inr (h', m') \<Rightarrow> tracks m0 (done @ ins) h' m' \<and>
             data_copy h' = data_copy h \<and> data_size h' = data_size h"
  using assms
proof (induction ins arbitrary: "done" h m)
  case Nil
  then show ?case by (simp add: insert_calls_def)
next
  case (Cons x ins)
  obtain k dat keep where x: "x = (k, dat, keep)" by (cases x)
  have new: "k \<notin> fst ` set done" using Cons.prems(2) x by auto
  have ok: "valid_data h m0 dat" using Cons.prems(3) x by auto
  have inv: "hinv h m" and sub: "mem_sub m0 m" using Cons.prems(1) by (simp_all add: tracks_def)
  have cok: "copy_ok h m dat" using ok sub by (rule valid_copy_ok) simp_all
  show ?case
  proof (cases "hmap_insert h k dat keep m")
    case (Inl e)
    from hmap_insert_fault(2)[OF inv cok Inl] show ?thesis
      using Inl x by (simp add: insert_calls_def)
  next
    case (Inr res)
    obtain rv h1 m1 where res: "res = (rv, h1, m1)" by (cases res)
    have i: "hmap_insert h k dat keep m = Inr (rv, h1, m1)" using Inr res by simp
    from tracks_insert[OF Cons.prems(1) new ok i]
    have t: "tracks m0 (done @ [(k, dat, keep)]) h1 m1" by simp
    note f = hmap_insert_hinv(6,8)[OF inv i]
    have d: "distinct (map fst ((done @ [(k, dat, keep)]) @ ins))" using Cons.prems(2) x by simp
    have v: "\<forall>(k, dat, keep)\<in>set ins. valid_data h1 m0 dat"
      using Cons.prems(3) f by (simp add: valid_data_def)
    have e: "run (insert_calls (x # ins)) (h, m) = run (insert_calls ins) (h1, m1)"
      using i x by (simp add: insert_calls_def)
    from Cons.IH[OF t d v] show ?thesis unfolding e using f x
      by (auto split: sum.splits)
  qed
qed

lemma abc_distinct: "distinct (map fst abc)"
  by (simp add: abc_def)

section \<open>The load test after an insertion\<close>

lemma over_load_mono:
  assumes "n \<le> n'" "over_load n cap lf"
  shows "over_load n' cap lf"
proof -
  have "double_of (real n) \<le> double_of (real n')" using assms(1) by (intro double_of_mono) auto
  then show ?thesis using assms(2) by (simp add: over_load_def)
qed

lemma over_load_zero: "0 \<le> lf \<Longrightarrow> \<not> over_load 0 cap lf"
proof -
  assume "0 \<le> lf"
  have "0 \<le> double_of (real cap)" by (rule double_of_nonneg) simp
  then have "0 \<le> double_of (real cap) * lf" using \<open>0 \<le> lf\<close> by simp
  then have "0 \<le> double_of (double_of (real cap) * lf)" by (rule double_of_nonneg)
  then show ?thesis by (simp add: over_load_def)
qed

lemma grow_step_within:
  assumes inv: "hinv h1 m" and ys: "item h1 = Some ys"
    and w: "\<not> over_load (size_h h1) (capacity h1) (load_factor h1)"
    and lfb: "load_factor h1 \<le> 1 - 1 / 2 ^ 53"
    and st: "(if grows h1 then x__hmap_resize_items h1 else Inr h1) = Inr g"
  shows "\<not> over_load (size_h g + 1) (capacity g) (load_factor g)"
proof (cases "grows h1")
  case False
  then show ?thesis using st by (simp add: grows_def)
next
  case True
  then have r: "x__hmap_resize_items h1 = Inr g" using st by simp
  note b = hinv_basic[OF inv]
  have c1: "capacity h1 \<le> max_slots" using inv ys by (rule hinv_slots)
  from resize_Inr[OF inv ys r] obtain xs where x: "hinv g m" "item g = Some xs"
    "grown (capacity h1) (load_factor h1) = Some (capacity g)"
    "g = h1\<lparr>item := Some xs, capacity := capacity g, max_dist := max_dist g\<rparr>" by blast
  have cg: "capacity g \<le> max_slots" using x(1,2) by (rule hinv_slots)
  have f: "size_h g = size_h h1" "load_factor g = load_factor h1" by (subst x(4), simp)+
  have more: "real (capacity h1) < real (capacity g) * load_factor h1"
    using b(1,2) c1 x(3) cg by (rule grown_more(2))
  have "size_h h1 \<le> max_slots" using b(4) c1 by simp
  then have s53: "size_h h1 < 2 ^ 53" "size_h h1 + 1 < 2 ^ 53" using slots_small by blast+
  have "size_h h1 < capacity h1"
    using b(1) lfb b(3) _ s53(1) w by (rule not_over_load_strict) (use slots_small[OF c1] in simp)
  then have "real (size_h h1 + 1) \<le> real (capacity h1)" by simp
  moreover have "double_of (real (capacity h1)) \<le> double_of (real (capacity g) * load_factor h1)"
    using more by (intro double_of_mono) auto
  ultimately have "real (size_h h1 + 1) \<le> double_of (real (capacity g) * load_factor h1)"
    using double_of_nat[of "capacity h1"] slots_small[OF c1] by simp
  then show ?thesis
    using double_of_nat[of "capacity g"] slots_small[OF cg] double_of_nat[OF s53(2)] f
    by (simp add: over_load_def)
qed

lemma insert_within:
  assumes inv: "hinv h0 m"
    and w: "\<not> over_load (size_h h0) (capacity h0) (load_factor h0)"
    and lfb: "load_factor h0 \<le> 1 - 1 / 2 ^ 53"
    and res: "hmap_insert h0 k dat keep m = Inr (r, h', m')"
  shows "\<not> over_load (size_h h') (capacity h') (load_factor h')"
proof -
  from insert_grow_of_insert[OF inv res] obtain g xs where g: "insert_grow h0 = Inr g" "hinv g m"
    "item g = Some xs" "size_h g < capacity g" by blast
  have room: "\<not> over_load (size_h g + 1) (capacity g) (load_factor g)"
  proof (cases "item h0")
    case None
    show ?thesis
    proof (cases "capacity h0 \<le> max_slots")
      case False
      then show ?thesis using g(1) None by (simp add: insert_grow_def x__hmap_create_items_def)
    next
      case True
      let ?h1 = "h0\<lparr>item := Some (replicate (capacity h0) zero_item)\<rparr>"
      note ci = hinv_create_items[OF inv None True]
      have e: "(if grows ?h1 then x__hmap_resize_items ?h1 else Inr ?h1) = Inr g"
        using g(1) None ci(1) by (simp add: insert_grow_def grows_def)
      show ?thesis by (rule grow_step_within[OF ci(2) _ _ _ e]) (use w lfb in simp_all)
    qed
  next
    case (Some ys)
    have e: "(if grows h0 then x__hmap_resize_items h0 else Inr h0) = Inr g"
      using g(1) Some by (simp add: insert_grow_def grows_def)
    show ?thesis by (rule grow_step_within[OF inv Some w lfb e])
  qed
  have p: "insert_place g k dat keep m = Inr (r, h', m')"
    using res g(1) by (simp add: hmap_insert_split)
  from hinv_basic(5)[OF g(2)] obtain khash where kh: "key_hash g = Some khash" by blast
  from g(2,3) kh g(4) show ?thesis
  proof (cases rule: insert_place_cases[where k = k and dat = dat and keep = keep])
    case (fault i)
    then show ?thesis using p by simp
  next
    case (new i d it m1)
    then show ?thesis using p room by auto
  next
    case (found i d)
    have "\<not> over_load (size_h g) (capacity g) (load_factor g)"
      using room over_load_mono[of "size_h g" "size_h g + 1"] by auto
    then show ?thesis using found p by auto
  qed
qed

lemma insert_trace_within:
  assumes "hinv h m" "\<not> over_load (size_h h) (capacity h) (load_factor h)"
    "load_factor h \<le> 1 - 1 / 2 ^ 53"
  shows "\<forall>(h', m')\<in>set (insert_trace ins h m).
           \<not> over_load (size_h h') (capacity h') (load_factor h')"
  using assms
proof (induction ins arbitrary: h m)
  case Nil
  then show ?case by simp
next
  case (Cons c ins)
  obtain k dat keep where c: "c = (k, dat, keep)" by (cases c)
  show ?case
  proof (cases "hmap_insert h k dat keep m")
    case (Inl e)
    then show ?thesis using c by simp
  next
    case (Inr res)
    obtain r h' m' where res: "res = (r, h', m')" by (cases res)
    have i: "hmap_insert h k dat keep m = Inr (r, h', m')" using Inr res by simp
    note hi = hmap_insert_hinv[OF Cons.prems(1) i]
    have w: "\<not> over_load (size_h h') (capacity h') (load_factor h')"
      using insert_within[OF Cons.prems i] .
    have "load_factor h' \<le> 1 - 1 / 2 ^ 53" using hi(4) Cons.prems(3) by simp
    from Cons.IH[OF hi(1) w this] show ?thesis using i w c by simp
  qed
qed

lemma insert_trace_abc:
  "insert_trace abc table0 caller_mem = [(table_a, mem_a), (table_ab, mem_ab), (table_abc, mem_abc)]"
  by (simp add: abc_def insert_a insert_ab insert_abc)

section \<open>The claims\<close>

text \<open>
  C1. For a table made by \<open>hmap_create_full\<close> and a sequence of insertions with pairwise
  distinct keys, each data pointer null or a block of the caller that the copy callback
  copies (or no copy callback set): no call fails to terminate, the sequence stops only
  where growing the slot array does (the new capacity is no \<open>long\<close>, or \<open>calloc\<close> returns
  null and the assertion fails), and when it returns \<open>hmap_find\<close> on each inserted key
  returns the value inserted for it: the caller's pointer itself when it is null or no
  copy callback is set, and otherwise a pointer to a block that holds what the copy
  callback made of the caller's block (for \<open>memcpy\<close>, its first \<open>data_size\<close> bytes).
\<close>

theorem insert_find_roundtrip:
  assumes "hmap_create_full cap dsize lf khash dcopy dfree = Inr h0"
    and "distinct (map fst ins)"
    and "\<forall>(k, dat, keep)\<in>set ins. dat = 0 \<or> dcopy = None \<or>
           (dat \<le> brk m0 \<and> blks m0 dat \<noteq> None \<and>
            the dcopy (the (blks m0 dat)) (nat dsize) \<noteq> None)"
  shows "case run (insert_calls ins) (h0, m0) of
           Inl e \<Rightarrow> e = Assertion_failed \<or> e = Undefined_behaviour
         | Inr (h, m) \<Rightarrow>
             (\<forall>(k, dat, keep)\<in>set ins.
                \<exists>p. hmap_find h k m = Inr p \<and>
                    (if dat \<noteq> 0 \<and> dcopy \<noteq> None
                     then blks m p \<noteq> None \<and>
                          blks m p = the dcopy (the (blks m0 dat)) (nat dsize)
                     else p = dat))"
proof -
  note c = hinv_create_full[OF assms(1)]
  have t0: "tracks m0 [] h0 m0"
    using c(1)[of m0] c(2) by (simp add: tracks_def mem_sub_refl live_keys_def)
  have d: "distinct (map fst ([] @ ins))" using assms(2) by simp
  have v: "\<forall>(k, dat, keep)\<in>set ins. valid_data h0 m0 dat"
    using assms(3) c(6,8) by (simp add: valid_data_def)
  note tr = tracks_run[OF t0 d v]
  show ?thesis
  proof (cases "run (insert_calls ins) (h0, m0)")
    case (Inl e)
    then have "e \<noteq> Diverges" using tr by simp
    then show ?thesis using Inl by (cases e) simp_all
  next
    case (Inr s)
    obtain h m where s: "s = (h, m)" by (cases s)
    have r: "tracks m0 ins h m" "data_copy h = data_copy h0" "data_size h = data_size h0"
      using tr Inr s by simp_all
    have "\<exists>p. hmap_find h k m = Inr p \<and>
                  (if dat \<noteq> 0 \<and> dcopy \<noteq> None
                   then blks m p \<noteq> None \<and>
                        blks m p = the dcopy (the (blks m0 dat)) (nat dsize)
                   else p = dat)" if "(k, dat, keep) \<in> set ins" for k dat keep
    proof -
      from tracks_find[OF r(1) assms(2) that] obtain p where
        p: "hmap_find h k m = Inr p" "val_ok m0 h m dat p" by blast
      then show ?thesis using r(2,3) c(6,8) by (auto simp: val_ok_def split: if_splits)
    qed
    then have all: "\<forall>(k, dat, keep)\<in>set ins.
                \<exists>p. hmap_find h k m = Inr p \<and>
                    (if dat \<noteq> 0 \<and> dcopy \<noteq> None
                     then blks m p \<noteq> None \<and>
                          blks m p = the dcopy (the (blks m0 dat)) (nat dsize)
                     else p = dat)" by blast
    show ?thesis unfolding Inr s using all by (simp only: sum.case prod.case)
  qed
qed

theorem insert_find_roundtrip_witness:
  "hmap_create_full 2 4 0.75 (Some strhash_fnv1a) (Some memcpy) (Some free_blk) = Inr table0 \<and>
   distinct (map fst abc) \<and>
   run (insert_calls abc) (table0, caller_mem) = Inr (table_abc, mem_abc) \<and>
   (\<exists>p. hmap_find table_abc ''b'' mem_abc = Inr p \<and> blks mem_abc p = Some [2, 0, 0, 0])"
proof -
  have v: "\<forall>(k, dat, keep)\<in>set abc. dat = 0 \<or> Some memcpy = None \<or>
           (dat \<le> brk caller_mem \<and> blks caller_mem dat \<noteq> None \<and>
            the (Some memcpy) (the (blks caller_mem dat)) (nat 4) \<noteq> None)"
    by (simp add: abc_def caller_mem_def memcpy_def)
  have r: "run (insert_calls abc) (table0, caller_mem) = Inr (table_abc, mem_abc)"
    using run_abc by (simp add: insert_calls_def abc_def)
  from insert_find_roundtrip[OF hmap_create_full_2_4 abc_distinct v]
  have f: "\<forall>(k, dat, keep)\<in>set abc.
              \<exists>p. hmap_find table_abc k mem_abc = Inr p \<and>
                  (if dat \<noteq> 0 \<and> Some memcpy \<noteq> None
                   then blks mem_abc p \<noteq> None \<and>
                        blks mem_abc p = the (Some memcpy) (the (blks caller_mem dat)) (nat 4)
                   else p = dat)" unfolding r by simp
  have "(''b'', 2, False) \<in> set abc" by (simp add: abc_def)
  with f have "\<exists>p. hmap_find table_abc ''b'' mem_abc = Inr p \<and>
      blks mem_abc p = the (Some memcpy) (the (blks caller_mem 2)) (nat 4)" by fastforce
  then have "\<exists>p. hmap_find table_abc ''b'' mem_abc = Inr p \<and> blks mem_abc p = Some [2, 0, 0, 0]"
    by (simp add: caller_mem_def memcpy_def)
  then show ?thesis using r hmap_create_full_2_4 abc_distinct by blast
qed

text \<open>
  C7. In a table made by \<open>hmap_create_full\<close>, after each call of a sequence of calls of
  \<open>hmap_insert\<close> that has returned, \<open>size <= capacity * load_factor\<close> holds as the program
  evaluates it: \<open>size\<close> and \<open>capacity\<close> converted to \<open>double\<close>, the product rounded.
\<close>

theorem insert_growth_invariant:
  assumes "hmap_create_full cap dsize lf khash dcopy dfree = Inr h0"
  shows "\<forall>(h, m)\<in>set (insert_trace ins h0 m0).
           double_of (real (size_h h)) \<le> double_of (double_of (real (capacity h)) * load_factor h)"
proof -
  note c = hinv_create_full[OF assms]
  have w: "\<not> over_load (size_h h0) (capacity h0) (load_factor h0)"
    using c(3,4,13) over_load_zero[of "double_of lf"] by simp
  have "double_of lf \<le> 1 - 1 / 2 ^ 53" using c(13,14) by (rule double_less_one)
  then have lfb: "load_factor h0 \<le> 1 - 1 / 2 ^ 53" using c(4) by simp
  from insert_trace_within[OF c(1) w lfb, of ins m0] show ?thesis
    by (auto simp: over_load_def)
qed

theorem insert_growth_invariant_witness:
  "hmap_create_full 2 4 0.75 (Some strhash_fnv1a) (Some memcpy) (Some free_blk) = Inr table0 \<and>
   insert_trace abc table0 caller_mem = [(table_a, mem_a), (table_ab, mem_ab), (table_abc, mem_abc)] \<and>
   size_h table_abc = 3 \<and> capacity table_abc = 5 \<and> load_factor table_abc = 0.75 \<and>
   double_of (real (size_h table_abc)) \<le>
     double_of (double_of (real (capacity table_abc)) * load_factor table_abc)"
proof -
  note t = insert_growth_invariant[OF hmap_create_full_2_4, of abc caller_mem]
  have "(table_abc, mem_abc) \<in> set (insert_trace abc table0 caller_mem)"
    by (simp add: insert_trace_abc)
  from bspec[OF t this]
  have "double_of (real (size_h table_abc)) \<le>
     double_of (double_of (real (capacity table_abc)) * load_factor table_abc)" by simp
  moreover have "size_h table_abc = 3" "capacity table_abc = 5" "load_factor table_abc = 0.75"
    by (simp_all add: table_abc_def table0_def)
  ultimately show ?thesis using hmap_create_full_2_4 insert_trace_abc by (intro conjI)
qed

text \<open>
  C2. In every state a table made by \<open>hmap_create_full\<close> reaches by calls of
  \<open>hmap_insert\<close>, \<open>hmap_remove\<close> and \<open>x__hmap_resize_items\<close>, every live slot \<open>i\<close> is
  \<open>j \<le> max_dist\<close> forward steps, wrapping, from its ideal slot \<open>hash % capacity\<close>; and
  \<open>hmap_find\<close> inspects at most \<open>max_dist + 1\<close> slots and returns the match, the data of a
  live slot holding the key, when the key is present, and null when it is not.
\<close>

theorem displacement_bound:
  assumes "hmap_create_full cap dsize lf khash dcopy dfree = Inr h0"
    and "run cs (h0, m0) = Inr (h, m)"
  shows "(case item h of
            None \<Rightarrow> True
          | Some xs \<Rightarrow>
              \<forall>i<capacity h. key (xs ! i) \<noteq> 0 \<longrightarrow>
                (\<exists>j\<le>max_dist h. i = (unat (hash (xs ! i)) mod capacity h + j) mod capacity h)) \<and>
         hmap_find_count h k m \<le> max_dist h + 1 \<and>
         (present h m k \<longrightarrow>
            (\<exists>xs i. item h = Some xs \<and> i < capacity h \<and> key (xs ! i) \<noteq> 0 \<and>
                  strs m (key (xs ! i)) = Some k \<and> hmap_find h k m = Inr (data (xs ! i)))) \<and>
         (\<not> present h m k \<longrightarrow> hmap_find h k m = Inr 0)"
proof -
  have inv: "hinv h m" using run_hinv[OF hinv_create_full(1)[OF assms(1)] assms(2)] by simp
  from hinv_basic(5)[OF inv] obtain kh where kh: "key_hash h = Some kh" by blast
  have d: "case item h of
            None \<Rightarrow> True
          | Some xs \<Rightarrow>
              \<forall>i<capacity h. key (xs ! i) \<noteq> 0 \<longrightarrow>
                (\<exists>j\<le>max_dist h. i = (unat (hash (xs ! i)) mod capacity h + j) mod capacity h)"
  proof (cases "item h")
    case None
    then show ?thesis by simp
  next
    case (Some xs)
    note s = hinv_Some[OF inv Some kh]
    have "\<exists>j\<le>max_dist h. i = (unat (hash (xs ! i)) mod capacity h + j) mod capacity h"
      if "i < capacity h" "key (xs ! i) \<noteq> 0" for i
      using slot_item_ok(2)[OF s(3), of i] that s(1) by (intro disp_offset_ex) simp_all
    then show ?thesis using Some by simp
  qed
  from inv have "hmap_find_count h k m \<le> max_dist h + 1 \<and>
         (present h m k \<longrightarrow>
            (\<exists>xs i. item h = Some xs \<and> i < capacity h \<and> key (xs ! i) \<noteq> 0 \<and>
                  strs m (key (xs ! i)) = Some k \<and> hmap_find h k m = Inr (data (xs ! i)))) \<and>
         (\<not> present h m k \<longrightarrow> hmap_find h k m = Inr 0)"
  proof (cases rule: find_remove_cases[where k = k])
    case absent
    then show ?thesis by simp
  next
    case (hit xs khash i j)
    have "present h m k" using hit(1,3,4,5) hinv_Some(1)[OF inv hit(1,2)]
      by (auto simp: present_def)
    then show ?thesis using hit by auto
  qed
  with d show ?thesis by simp
qed

theorem displacement_bound_witness:
  "hmap_create_full 2 4 0.75 (Some strhash_fnv1a) (Some memcpy) (Some free_blk) = Inr table0 \<and>
   run [Insert ''a'' 1 False, Insert ''b'' 2 False] (table0, caller_mem) = Inr (table_ab, mem_ab) \<and>
   max_dist table_ab = 1 \<and>
   hmap_find_count table_ab ''b'' mem_ab \<le> max_dist table_ab + 1 \<and>
   present table_ab mem_ab ''b'' \<and>
   (\<exists>xs i. item table_ab = Some xs \<and> i < capacity table_ab \<and> key (xs ! i) \<noteq> 0 \<and>
            strs mem_ab (key (xs ! i)) = Some ''b'' \<and>
            hmap_find table_ab ''b'' mem_ab = Inr (data (xs ! i))) \<and>
   \<not> present table_ab mem_ab ''z'' \<and>
   hmap_find table_ab ''z'' mem_ab = Inr 0"
proof -
  have p: "present table_ab mem_ab ''b''" "\<not> present table_ab mem_ab ''z''"
    by (simp_all add: present_set state_defs zero_item_def)
  show ?thesis
    using displacement_bound[OF hmap_create_full_2_4 run_ab, of "''b''"]
      displacement_bound[OF hmap_create_full_2_4 run_ab, of "''z''"]
      hmap_create_full_2_4 run_ab p
    by (simp add: table_ab_def)
qed

text \<open>
  C8. In every state a table reaches: for a key that is not present, \<open>hmap_find\<close> and
  \<open>hmap_remove\<close> return null and \<open>hmap_remove\<close> leaves the table and the memory as they
  are. For a key that is present, \<open>hmap_remove\<close> returns the data pointer of a live slot
  holding the key, sets that slot to zero, takes one off \<open>size\<close>, and its only effect on
  memory is that the slot's key string is freed: the result does not depend on the free
  callback, and the data blocks are untouched.
\<close>

theorem find_remove_results:
  assumes "hmap_create_full cap dsize lf khash dcopy dfree = Inr h0"
    and "run cs (h0, m0) = Inr (h, m)"
  shows "(\<not> present h m k \<longrightarrow>
            hmap_find h k m = Inr 0 \<and> hmap_remove h k m = Inr (0, h, m)) \<and>
         (present h m k \<longrightarrow>
            (\<exists>xs i. item h = Some xs \<and> i < capacity h \<and> key (xs ! i) \<noteq> 0 \<and>
                strs m (key (xs ! i)) = Some k \<and> 0 < size_h h \<and>
                hmap_remove h k m =
                  Inr (data (xs ! i),
                       h\<lparr>item := Some (xs[i := zero_item]), size_h := size_h h - 1\<rparr>,
                       m\<lparr>strs := (strs m)(key (xs ! i) := None)\<rparr>)))"
proof -
  have inv: "hinv h m" using run_hinv[OF hinv_create_full(1)[OF assms(1)] assms(2)] by simp
  from inv show ?thesis
  proof (cases rule: find_remove_cases[where k = k])
    case absent
    then show ?thesis by simp
  next
    case (hit xs khash i j)
    have "present h m k" using hit(1,3,4,5) hinv_Some(1)[OF inv hit(1,2)]
      by (auto simp: present_def)
    moreover have "drop_str (key (xs ! i)) m = m\<lparr>strs := (strs m)(key (xs ! i) := None)\<rparr>"
      by (simp add: drop_str_def)
    ultimately show ?thesis using hit by auto
  qed
qed

theorem find_remove_results_witness:
  "hmap_create_full 2 4 0.75 (Some strhash_fnv1a) (Some memcpy) (Some free_blk) = Inr table0 \<and>
   run [Insert ''a'' 1 False, Insert ''b'' 2 False, Insert ''c'' 3 False] (table0, caller_mem) =
     Inr (table_abc, mem_abc) \<and>
   \<not> present table_abc mem_abc ''z'' \<and>
   hmap_find table_abc ''z'' mem_abc = Inr 0 \<and>
   hmap_remove table_abc ''z'' mem_abc = Inr (0, table_abc, mem_abc) \<and>
   present table_abc mem_abc ''b'' \<and>
   (\<exists>xs i. item table_abc = Some xs \<and> i < capacity table_abc \<and> key (xs ! i) \<noteq> 0 \<and>
       strs mem_abc (key (xs ! i)) = Some ''b'' \<and> 0 < size_h table_abc \<and>
       hmap_remove table_abc ''b'' mem_abc =
         Inr (data (xs ! i),
              table_abc\<lparr>item := Some (xs[i := zero_item]), size_h := size_h table_abc - 1\<rparr>,
              mem_abc\<lparr>strs := (strs mem_abc)(key (xs ! i) := None)\<rparr>))"
  using find_remove_results[OF hmap_create_full_2_4 run_abc, of "''z''"]
    find_remove_results[OF hmap_create_full_2_4 run_abc, of "''b''"]
    hmap_create_full_2_4 run_abc present_abc
  by simp

text \<open>
  C9. The table \<open>hmap_create(2, 4)\<close> (capacity hint 2, load factor 0.75, FNV-1a, values
  of four bytes copied by \<open>memcpy\<close>) after the insertion of a, b and c with the values 1,
  2 and 3: size 3, \<open>find b\<close> points to the bytes of 2, \<open>find z\<close> is null. \<open>remove b\<close> returns
  the pointer to the bytes of 2; after it: size 2, \<open>find b\<close> is null, \<open>find a\<close> and
  \<open>find c\<close> point to the bytes of 1 and 3.
\<close>

theorem abc_scenario:
  "\<exists>h m p r h' m' pa pc.
     hmap_create 2 4 = Inr table0 \<and>
     run [Insert ''a'' 1 False, Insert ''b'' 2 False, Insert ''c'' 3 False] (table0, caller_mem) =
       Inr (h, m) \<and>
     size_h h = 3 \<and>
     hmap_find h ''b'' m = Inr p \<and> blks m p = Some [2, 0, 0, 0] \<and>
     hmap_find h ''z'' m = Inr 0 \<and>
     hmap_remove h ''b'' m = Inr (r, h', m') \<and> blks m' r = Some [2, 0, 0, 0] \<and>
     size_h h' = 2 \<and>
     hmap_find h' ''b'' m' = Inr 0 \<and>
     hmap_find h' ''a'' m' = Inr pa \<and> blks m' pa = Some [1, 0, 0, 0] \<and>
     hmap_find h' ''c'' m' = Inr pc \<and> blks m' pc = Some [3, 0, 0, 0]"
proof -
  define h' where "h' = table_abc\<lparr>size_h := 2,
     item := Some [zero_item, slot 4 5 ''a'', zero_item, slot 8 9 ''c'', zero_item]\<rparr>"
  define m' where "m' = mem_abc\<lparr>strs := [4 \<mapsto> ''a'', 8 \<mapsto> ''c'']\<rparr>"
  have 1: "size_h table_abc = 3" by (simp add: table_abc_def)
  have 2: "hmap_find table_abc ''b'' mem_abc = Inr 7" "blks mem_abc 7 = Some [2, 0, 0, 0]"
    "hmap_find table_abc ''z'' mem_abc = Inr 0"
    by (simp_all add: state_defs remove_eval zero_item_def)
  have 3: "hmap_remove table_abc ''b'' mem_abc = Inr (7, h', m')"
    by (simp add: h'_def m'_def state_defs remove_eval zero_item_def fun_eq_iff)
  have 4: "blks m' 7 = Some [2, 0, 0, 0]" "size_h h' = 2"
    "hmap_find h' ''b'' m' = Inr 0"
    "hmap_find h' ''a'' m' = Inr 5" "blks m' 5 = Some [1, 0, 0, 0]"
    "hmap_find h' ''c'' m' = Inr 9" "blks m' 9 = Some [3, 0, 0, 0]"
    by (simp_all add: h'_def m'_def state_defs remove_eval zero_item_def)
  show ?thesis using hmap_create_2_4 run_abc 1 2 3 4 by blast
qed

text \<open>
  C3, at the input where the code departs from it. After the insertion of a and b, which
  share their ideal slot, and the removal of a, the key b is present once, one step past
  the cleared slot. \<open>hmap_insert\<close> of b stops at the cleared slot: it returns null, not
  the stored value, \<open>size\<close> grows to 2 and two live slots hold the key b.
\<close>

theorem insert_after_remove_duplicates:
  "run [Insert ''a'' 1 False, Insert ''b'' 2 False, Remove ''a''] (table0, caller_mem) =
     Inr (table_b, mem_b) \<and>
   present table_b mem_b ''b'' \<and> size_h table_b = 1 \<and>
   hmap_insert table_b ''b'' 3 keep mem_b = Inr (0, table_bb, mem_bb) \<and>
   size_h table_bb = 2 \<and>
   item table_bb = Some [zero_item, slot 8 9 ''b'', slot 6 7 ''b''] \<and>
   strs mem_bb 8 = Some ''b'' \<and> strs mem_bb 6 = Some ''b''"
  using run_b insert_bb by (simp add: present_set state_defs zero_item_def)

theorem insert_after_remove_duplicates_witness:
  "present table_b mem_b ''b'' \<and> size_h table_b = 1 \<and>
   hmap_insert table_b ''b'' 3 True mem_b = Inr (0, table_bb, mem_bb) \<and>
   hmap_insert table_b ''b'' 3 False mem_b = Inr (0, table_bb, mem_bb) \<and>
   size_h table_bb = 2"
  using insert_after_remove_duplicates[of True] insert_after_remove_duplicates[of False]
  by (elim conjE, intro conjI) assumption+


text \<open>
  C6, at the input where the code departs from it. With \<open>memcpy\<close> as copy callback, the
  first insertion of a stores a new block holding a copy of the caller's bytes. The
  second insertion of a, with \<open>keep\<close> 0, stores the caller's pointer 2 itself and
  allocates nothing; \<open>hmap_clear\<close> then frees the caller's block.
\<close>

theorem insert_replace_stores_raw_pointer:
  "data_copy table0 = Some memcpy \<and>
   hmap_insert table0 ''a'' 1 False caller_mem = Inr (0, table_a, mem_a) \<and>
   item table_a = Some [zero_item, slot 4 5 ''a'', zero_item] \<and>
   blks caller_mem 5 = None \<and> blks mem_a 5 = blks caller_mem 1 \<and>
   hmap_insert table_a ''a'' 2 False mem_a = Inr (5, table_aa, mem_a) \<and>
   item table_aa = Some [zero_item, slot 4 2 ''a'', zero_item] \<and>
   blks caller_mem 2 = Some [2, 0, 0, 0] \<and>
   (\<exists>m'. hmap_clear table_aa mem_a = Inr (zero_hmap, m') \<and> blks m' 2 = None)"
  using insert_a insert_aa
  by (simp add: state_defs zero_item_def hmap_clear_def free_str_def free_blk_def)

theorem insert_replace_stores_raw_pointer_witness:
  "hmap_insert table_a ''a'' 2 False mem_a = Inr (5, table_aa, mem_a) \<and>
   (\<exists>m'. hmap_clear table_aa mem_a = Inr (zero_hmap, m') \<and> blks m' 2 = None)"
  using insert_replace_stores_raw_pointer by (elim conjE, intro conjI) assumption+


end
